theory Spec2Isabelle
  imports Complex_Main "HOL-Library.AList"
begin

section \<open>Strings as Python sees them\<close>

text \<open>
  A Python \<open>str\<close> is modelled as a \<open>string\<close>, one \<open>char\<close> per code point below 256.
  \<open>is_space\<close> lists the code points of that range for which \<open>str.isspace\<close> holds; they are
  the separators of \<open>str.split()\<close> and the characters \<open>str.strip()\<close> removes.
\<close>

definition is_space :: "char \<Rightarrow> bool" where
  "is_space c = (c \<in> set [CHR 0x09, CHR 0x0A, CHR 0x0B, CHR 0x0C, CHR 0x0D,
                           CHR 0x1C, CHR 0x1D, CHR 0x1E, CHR 0x1F, CHR 0x20,
                           CHR 0x85, CHR 0xA0])"

text \<open>\<open>text.split()\<close>: the maximal runs of non-space characters, in order; \<open>cur\<close> is the
  run being read.\<close>

fun split_from :: "string \<Rightarrow> string \<Rightarrow> string list" where
  "split_from cur [] = (if cur = [] then [] else [cur])"
| "split_from cur (c # cs) =
     (if is_space c then (if cur = [] then split_from [] cs else cur # split_from [] cs)
      else split_from (cur @ [c]) cs)"

definition py_split :: "string \<Rightarrow> string list" where
  "py_split t = split_from [] t"

text \<open>\<open>text.strip()\<close>.\<close>

definition strip :: "string \<Rightarrow> string" where
  "strip t = rev (dropWhile is_space (rev (dropWhile is_space t)))"

text \<open>\<open>text.split(sep)\<close> for a one-character separator: empty fields are kept.\<close>

fun split_on :: "char \<Rightarrow> string \<Rightarrow> string \<Rightarrow> string list" where
  "split_on sep cur [] = [cur]"
| "split_on sep cur (c # cs) =
     (if c = sep then cur # split_on sep [] cs else split_on sep (cur @ [c]) cs)"

text \<open>\<open>sep.join(parts)\<close>.\<close>

fun join :: "string \<Rightarrow> string list \<Rightarrow> string" where
  "join sep [] = []"
| "join sep [x] = x"
| "join sep (x # y # ys) = x @ sep @ join sep (y # ys)"

section \<open>Configuration (app/config.py)\<close>

definition SUMMARY_WORD_THRESHOLD :: nat where
  "SUMMARY_WORD_THRESHOLD = 200"

definition SUMMARY_TIME_INTERVAL :: real where
  "SUMMARY_TIME_INTERVAL = 30"

definition SUMMARY_SENTENCE_COUNT :: nat where
  "SUMMARY_SENTENCE_COUNT = 3"

definition VOSK_SAMPLE_RATE :: nat where
  "VOSK_SAMPLE_RATE = 16000"

section \<open>Data model\<close>

text \<open>
  A \<open>pathlib.Path\<close>: its string form is never empty (\<open>str(Path(''))\<close> is \<open>'.'\<close>), so a path is
  a first character and the rest. \<open>str_of\<close> is \<open>str(p)\<close>.
\<close>

datatype path = Path char string

fun str_of :: "path \<Rightarrow> string" where
  "str_of (Path c cs) = c # cs"

text \<open>A converted WAV file: channel count, frame rate and sample data.\<close>

datatype wav = Wav nat nat string

text \<open>The JSON messages sent to WebSocket clients (workers.py, lines 165-170, 176-180,
  207-212).\<close>

datatype message =
    TranscriptUpdate string string string
  | SummaryMsg string string
  | SessionEnded string string string

datatype session_status = Active | Ended

text \<open>The per-session dictionary of \<open>SessionStorage.create_session\<close>. \<open>buffered_chunks\<close>
  is a Python dict from sequence number to path string: an association list in insertion
  order, written with \<open>AList.update\<close> and \<open>AList.delete\<close> and read with \<open>map_of\<close>.
  Timestamps are real numbers of seconds.\<close>

record session =
  sess_id :: string
  created_at :: real
  status :: session_status
  chunks_received :: nat
  transcript :: string
  summary :: string
  expected_seq :: int
  buffered_chunks :: "(int \<times> string) list"
  last_summary_time :: real
  word_count :: nat
  ended_at :: "real option"

text \<open>
  The collaborators the code calls and does not implement, as functions:
  \<^item> \<open>ffmpeg sid seq p\<close>: the WAV file \<open>_convert_to_wav\<close> obtains from the chunk at \<open>p\<close>, or
    \<open>None\<close> when the process fails, the output is missing or an exception is raised;
  \<^item> \<open>vosk_new\<close>, \<open>vosk_accept\<close>, \<open>vosk_final\<close>: a fresh \<open>KaldiRecognizer\<close>, feeding it
    the frames of a file, and \<open>FinalResult()\<close> (the new state and the field \<open>text\<close>);
  \<^item> \<open>lexrank text n\<close>: the LexRank summary joined with spaces, \<open>None\<close> when sumy raises;
  \<^item> \<open>send_text c m\<close>: whether sending \<open>m\<close> to connection \<open>c\<close> succeeds;
  \<^item> \<open>clock i\<close>: the value of the \<open>i\<close>-th call of \<open>datetime.now()\<close>.
\<close>

record 'r env =
  ffmpeg :: "string \<Rightarrow> int \<Rightarrow> path \<Rightarrow> wav option"
  vosk_new :: 'r
  vosk_accept :: "'r \<Rightarrow> string \<Rightarrow> 'r"
  vosk_final :: "'r \<Rightarrow> 'r \<times> string"
  lexrank :: "string \<Rightarrow> nat \<Rightarrow> string option"
  send_text :: "nat \<Rightarrow> message \<Rightarrow> bool"
  clock :: "nat \<Rightarrow> real"

text \<open>
  The process state: \<open>storage.sessions\<close>, \<open>transcriber.recognizers\<close>,
  \<open>ws_manager.active_connections\<close> (connections are numbered), and three observation
  fields: the messages delivered so far, the texts handed to \<open>summarizer.summarize\<close> so
  far, and the number of clock readings so far. Files written under the session directory
  are snapshots of these fields and are not modelled.
\<close>

record 'r world =
  sessions :: "string \<rightharpoonup> session"
  recognizers :: "string \<rightharpoonup> 'r"
  active_connections :: "nat list"
  delivered :: "(nat \<times> message) list"
  summarize_log :: "string list"
  clock_reads :: nat

definition now :: "'r env \<Rightarrow> 'r world \<Rightarrow> real" where
  "now E w = clock E (clock_reads w)"

definition tick :: "'r world \<Rightarrow> 'r world" where
  "tick w = w\<lparr>clock_reads := Suc (clock_reads w)\<rparr>"

section \<open>SessionStorage (app/storage.py)\<close>

definition create_session :: "'r env \<Rightarrow> 'r world \<Rightarrow> string \<Rightarrow> 'r world" where
  "create_session E w sid =
     (let t1 = now E w; w1 = tick w; t2 = now E w1; w2 = tick w1
      in w2\<lparr>sessions := (sessions w2)(sid \<mapsto>
           \<lparr>sess_id = sid, created_at = t1, status = Active, chunks_received = 0,
            transcript = [], summary = [], expected_seq = 0, buffered_chunks = [],
            last_summary_time = t2, word_count = 0, ended_at = None\<rparr>)\<rparr>)"

definition update_transcript :: "'r world \<Rightarrow> string \<Rightarrow> string \<Rightarrow> bool \<Rightarrow> 'r world" where
  "update_transcript w sid text do_append =
     (case sessions w sid of
        None \<Rightarrow> w
      | Some s \<Rightarrow>
          (let t = (if do_append then transcript s @ '' '' @ text else text)
           in w\<lparr>sessions := (sessions w)(sid \<mapsto>
                  s\<lparr>transcript := t, word_count := length (py_split t)\<rparr>)\<rparr>))"

definition update_summary :: "'r env \<Rightarrow> 'r world \<Rightarrow> string \<Rightarrow> string \<Rightarrow> 'r world" where
  "update_summary E w sid text =
     (case sessions w sid of
        None \<Rightarrow> w
      | Some s \<Rightarrow>
          tick (w\<lparr>sessions := (sessions w)(sid \<mapsto>
                  s\<lparr>summary := text, last_summary_time := now E w\<rparr>)\<rparr>))"

definition get_transcript :: "'r world \<Rightarrow> string \<Rightarrow> string" where
  "get_transcript w sid = (case sessions w sid of None \<Rightarrow> [] | Some s \<Rightarrow> transcript s)"

definition get_summary :: "'r world \<Rightarrow> string \<Rightarrow> string" where
  "get_summary w sid = (case sessions w sid of None \<Rightarrow> [] | Some s \<Rightarrow> summary s)"

definition get_session_metadata :: "'r world \<Rightarrow> string \<Rightarrow> session option" where
  "get_session_metadata w sid = sessions w sid"

text \<open>\<open>should_generate_summary\<close> reads the clock only when the word threshold is not
  reached; the result is the decision and the state after the reading.\<close>

definition should_generate_summary ::
  "'r env \<Rightarrow> 'r world \<Rightarrow> string \<Rightarrow> nat \<Rightarrow> real \<Rightarrow> bool \<times> 'r world" where
  "should_generate_summary E w sid word_threshold time_interval =
     (case sessions w sid of
        None \<Rightarrow> (False, w)
      | Some s \<Rightarrow>
          if word_count s \<ge> word_threshold then (True, w)
          else (let time_since_last = now E w - last_summary_time s
                in if time_since_last \<ge> time_interval \<and> word_count s > 50
                   then (True, tick w) else (False, tick w)))"

definition mark_session_ended :: "'r env \<Rightarrow> 'r world \<Rightarrow> string \<Rightarrow> 'r world" where
  "mark_session_ended E w sid =
     (case sessions w sid of
        None \<Rightarrow> w
      | Some s \<Rightarrow>
          tick (w\<lparr>sessions := (sessions w)(sid \<mapsto>
                  s\<lparr>status := Ended, ended_at := Some (now E w)\<rparr>)\<rparr>))"

text \<open>\<open>cleanup_session\<close>: the directory is removed and the entry deleted.\<close>

definition cleanup_session :: "'r world \<Rightarrow> string \<Rightarrow> 'r world" where
  "cleanup_session w sid =
     (case sessions w sid of
        None \<Rightarrow> w
      | Some s \<Rightarrow> w\<lparr>sessions := (sessions w)(sid := None)\<rparr>)"

definition get_expected_seq :: "'r world \<Rightarrow> string \<Rightarrow> int" where
  "get_expected_seq w sid = (case sessions w sid of None \<Rightarrow> 0 | Some s \<Rightarrow> expected_seq s)"

definition increment_expected_seq :: "'r world \<Rightarrow> string \<Rightarrow> 'r world" where
  "increment_expected_seq w sid =
     (case sessions w sid of
        None \<Rightarrow> w
      | Some s \<Rightarrow> w\<lparr>sessions := (sessions w)(sid \<mapsto> s\<lparr>expected_seq := expected_seq s + 1\<rparr>)\<rparr>)"

definition buffer_future_chunk :: "'r world \<Rightarrow> string \<Rightarrow> int \<Rightarrow> path \<Rightarrow> 'r world" where
  "buffer_future_chunk w sid seq chunk_path =
     (case sessions w sid of
        None \<Rightarrow> w
      | Some s \<Rightarrow> w\<lparr>sessions := (sessions w)(sid \<mapsto>
          s\<lparr>buffered_chunks := AList.update seq (str_of chunk_path) (buffered_chunks s)\<rparr>)\<rparr>)"

text \<open>\<open>if chunk_path:\<close> is the test that the stored string is not empty.\<close>

definition get_buffered_chunk :: "'r world \<Rightarrow> string \<Rightarrow> int \<Rightarrow> path option" where
  "get_buffered_chunk w sid seq =
     (case sessions w sid of
        None \<Rightarrow> None
      | Some s \<Rightarrow>
          (case map_of (buffered_chunks s) seq of
             None \<Rightarrow> None
           | Some [] \<Rightarrow> None
           | Some (c # cs) \<Rightarrow> Some (Path c cs)))"

definition remove_buffered_chunk :: "'r world \<Rightarrow> string \<Rightarrow> int \<Rightarrow> 'r world" where
  "remove_buffered_chunk w sid seq =
     (case sessions w sid of
        None \<Rightarrow> w
      | Some s \<Rightarrow>
          if seq \<in> fst ` set (buffered_chunks s)
          then w\<lparr>sessions := (sessions w)(sid \<mapsto>
                  s\<lparr>buffered_chunks := AList.delete seq (buffered_chunks s)\<rparr>)\<rparr>
          else w)"

section \<open>VoskTranscriber (app/transcriber.py)\<close>

definition get_recognizer :: "'r env \<Rightarrow> 'r world \<Rightarrow> string \<Rightarrow> 'r \<times> 'r world" where
  "get_recognizer E w sid =
     (case recognizers w sid of
        None \<Rightarrow> (vosk_new E, w\<lparr>recognizers := (recognizers w)(sid \<mapsto> vosk_new E)\<rparr>)
      | Some r \<Rightarrow> (r, w))"

text \<open>\<open>transcribe_chunk\<close>: the format checks, then all frames are fed to the session's
  recognizer and its final result is read, stripped; an empty text is \<open>None\<close>. An
  exception raised while the file is read also gives \<open>None\<close> in the source; the converted
  file is taken to be readable, so that branch has no counterpart here.\<close>

definition transcribe_chunk :: "'r env \<Rightarrow> 'r world \<Rightarrow> string \<Rightarrow> wav \<Rightarrow> string option \<times> 'r world" where
  "transcribe_chunk E w sid wav_file =
     (case get_recognizer E w sid of (r, w1) \<Rightarrow>
        (case wav_file of Wav channels rate frames \<Rightarrow>
           if channels \<noteq> 1 then (None, w1)
           else if rate \<noteq> VOSK_SAMPLE_RATE then (None, w1)
           else (case vosk_final E (vosk_accept E r frames) of (r', res) \<Rightarrow>
                   (let text = strip res;
                        w2 = w1\<lparr>recognizers := (recognizers w1)(sid \<mapsto> r')\<rparr>
                    in if text \<noteq> [] then (Some text, w2) else (None, w2)))))"

text \<open>\<open>VoskTranscriber.finalize_session\<close>: the final result of the session's recognizer,
  which is then deleted.\<close>

definition transcriber_finalize_session ::
  "'r env \<Rightarrow> 'r world \<Rightarrow> string \<Rightarrow> string option \<times> 'r world" where
  "transcriber_finalize_session E w sid =
     (case recognizers w sid of
        None \<Rightarrow> (None, w)
      | Some r \<Rightarrow>
          (let text = strip (snd (vosk_final E r));
               w1 = w\<lparr>recognizers := (recognizers w)(sid := None)\<rparr>
           in (if text \<noteq> [] then Some text else None, w1)))"

section \<open>TextSummarizer (app/summarizer.py)\<close>

definition fallback_summary :: "string \<Rightarrow> nat \<Rightarrow> string" where
  "fallback_summary text sentence_count =
     (let sentences = filter (\<lambda>s. s \<noteq> []) (map strip (split_on CHR ''.'' [] text));
          selected = take sentence_count sentences
      in join ''. '' selected @ ''.'')"

definition summarize_n :: "'r env \<Rightarrow> string \<Rightarrow> nat \<Rightarrow> string" where
  "summarize_n E text sentence_count =
     (if text = [] \<or> length (strip text) < 50 then []
      else (case lexrank E text sentence_count of
              Some s \<Rightarrow> s
            | None \<Rightarrow> fallback_summary text sentence_count))"

text \<open>A call \<open>summarizer.summarize(text)\<close> from the workers: the default sentence count,
  and the call is recorded.\<close>

definition summarize :: "'r env \<Rightarrow> 'r world \<Rightarrow> string \<Rightarrow> string \<times> 'r world" where
  "summarize E w text =
     (summarize_n E text SUMMARY_SENTENCE_COUNT, w\<lparr>summarize_log := summarize_log w @ [text]\<rparr>)"

section \<open>WebSocketManager (app/main.py)\<close>

definition connect :: "'r world \<Rightarrow> nat \<Rightarrow> 'r world" where
  "connect w c = w\<lparr>active_connections := active_connections w @ [c]\<rparr>"

definition disconnect :: "'r world \<Rightarrow> nat \<Rightarrow> 'r world" where
  "disconnect w c =
     (if c \<in> set (active_connections w)
      then w\<lparr>active_connections := remove1 c (active_connections w)\<rparr> else w)"

text \<open>The first loop of \<open>broadcast\<close>: the connections reached and the list
  \<open>disconnected\<close>, both in order.\<close>

fun send_loop :: "'r env \<Rightarrow> message \<Rightarrow> nat list \<Rightarrow> nat list \<times> nat list" where
  "send_loop E m [] = ([], [])"
| "send_loop E m (c # cs) =
     (case send_loop E m cs of (ok, disconnected) \<Rightarrow>
        if send_text E c m then (c # ok, disconnected) else (ok, c # disconnected))"

definition broadcast :: "'r env \<Rightarrow> 'r world \<Rightarrow> message \<Rightarrow> 'r world" where
  "broadcast E w m =
     (if active_connections w = [] then w
      else (case send_loop E m (active_connections w) of (ok, disconnected) \<Rightarrow>
              foldl disconnect (w\<lparr>delivered := delivered w @ map (\<lambda>c. (c, m)) ok\<rparr>) disconnected))"

section \<open>ChunkProcessor (app/workers.py)\<close>

text \<open>The processor's \<open>websocket_manager\<close> is the manager \<open>main.py\<close> installs when it is
  loaded (line 76), so the test \<open>if self.websocket_manager\<close> holds.\<close>

definition broadcast_transcript_update :: "'r env \<Rightarrow> 'r world \<Rightarrow> string \<Rightarrow> string \<Rightarrow> 'r world" where
  "broadcast_transcript_update E w sid text =
     broadcast E w (TranscriptUpdate sid text (get_transcript w sid))"

definition broadcast_summary :: "'r env \<Rightarrow> 'r world \<Rightarrow> string \<Rightarrow> string \<Rightarrow> 'r world" where
  "broadcast_summary E w sid text = broadcast E w (SummaryMsg sid text)"

definition convert_to_wav :: "'r env \<Rightarrow> string \<Rightarrow> int \<Rightarrow> path \<Rightarrow> wav option" where
  "convert_to_wav E sid seq input_path = ffmpeg E sid seq input_path"

definition generate_and_broadcast_summary :: "'r env \<Rightarrow> 'r world \<Rightarrow> string \<Rightarrow> 'r world" where
  "generate_and_broadcast_summary E w sid =
     (let t = get_transcript w sid
      in if t = [] \<or> length (py_split t) < 30 then w
         else (case summarize E w t of (s, w1) \<Rightarrow>
                 if s \<noteq> [] then broadcast_summary E (update_summary E w1 sid s) sid s
                 else w1))"

text \<open>\<open>finalize_session\<close>: the recognizer's last text is appended, a transcript of at
  least 10 words is summarized and the result stored and broadcast, the session is marked
  ended and \<open>session_ended\<close> is broadcast.\<close>

definition finalize_session :: "'r env \<Rightarrow> 'r world \<Rightarrow> string \<Rightarrow> 'r world" where
  "finalize_session E w sid =
     (case transcriber_finalize_session E w sid of (final_text, w1) \<Rightarrow>
        (let w2 = (case final_text of
                     None \<Rightarrow> w1
                   | Some t \<Rightarrow> update_transcript w1 sid t True);
             t = get_transcript w2 sid;
             w3 = (if t \<noteq> [] \<and> length (py_split t) \<ge> 10
                   then (case summarize E w2 t of (s, w') \<Rightarrow>
                           broadcast_summary E (update_summary E w' sid s) sid s)
                   else w2);
             w4 = mark_session_ended E w3 sid
         in broadcast E w4 (SessionEnded sid (get_transcript w4 sid) (get_summary w4 sid))))"

text \<open>
  \<open>process_chunk\<close> and the loop \<open>_process_buffered_chunks\<close> call each other. A call is
  modelled as running to completion before the next one starts, on a stack that has room
  for every nested call; the last section gives the two functions with the depth of the
  stack and the interpreter's limit on it. The auxiliary \<open>buffered_of\<close> reads a session's
  buffer (empty for an unknown session); the buffer's length is what the recursion
  decreases.
\<close>

definition buffered_of :: "'r world \<Rightarrow> string \<Rightarrow> (int \<times> string) list" where
  "buffered_of w sid = (case sessions w sid of None \<Rightarrow> [] | Some s \<Rightarrow> buffered_chunks s)"

function process_chunk :: "'r env \<Rightarrow> 'r world \<Rightarrow> string \<Rightarrow> int \<Rightarrow> path \<Rightarrow> 'r world"
  and process_buffered_chunks :: "'r env \<Rightarrow> 'r world \<Rightarrow> string \<Rightarrow> 'r world" where
  "process_chunk E w sid seq chunk_path =
     (let expected = get_expected_seq w sid in
      if seq < expected then w
      else if seq > expected then buffer_future_chunk w sid seq chunk_path
      else (case convert_to_wav E sid seq chunk_path of
              None \<Rightarrow> w
            | Some wav_file \<Rightarrow>
                (case transcribe_chunk E w sid wav_file of (text, w1) \<Rightarrow>
                   (let w2 = (case text of
                                None \<Rightarrow> w1
                              | Some t \<Rightarrow>
                                  (let w3 = update_transcript w1 sid t True;
                                       w4 = broadcast_transcript_update E w3 sid t
                                   in case should_generate_summary E w4 sid
                                             SUMMARY_WORD_THRESHOLD SUMMARY_TIME_INTERVAL of
                                        (b, w5) \<Rightarrow>
                                          if b then generate_and_broadcast_summary E w5 sid
                                          else w5))
                    in process_buffered_chunks E (increment_expected_seq w2 sid) sid))))"
| "process_buffered_chunks E w sid =
     (let expected = get_expected_seq w sid in
      case get_buffered_chunk w sid expected of
        None \<Rightarrow> w
      | Some buffered_chunk \<Rightarrow>
          process_buffered_chunks E
            (process_chunk E (remove_buffered_chunk w sid expected) sid expected buffered_chunk)
            sid)"
  by pat_completeness auto


subsection \<open>Which operations leave the sessions and the buffer alone\<close>


lemma sessions_tick [simp]: "sessions (tick w) = sessions w"
  by (simp add: tick_def)

lemma sessions_disconnect [simp]: "sessions (disconnect w c) = sessions w"
  by (simp add: disconnect_def)

lemma sessions_foldl_disconnect [simp]: "sessions (foldl disconnect w cs) = sessions w"
  by (induction cs arbitrary: w) simp_all

lemma sessions_broadcast [simp]: "sessions (broadcast E w m) = sessions w"
  by (simp add: broadcast_def split: prod.splits)

lemma sessions_transcribe_chunk [simp]: "sessions (snd (transcribe_chunk E w sid f)) = sessions w"
  by (simp add: transcribe_chunk_def get_recognizer_def Let_def split: prod.splits option.splits wav.splits)

lemma sessions_should_generate_summary [simp]:
  "sessions (snd (should_generate_summary E w sid W T)) = sessions w"
  by (simp add: should_generate_summary_def Let_def split: option.splits)

lemma buffered_of_update_transcript [simp]:
  "buffered_of (update_transcript w sid t a) sid' = buffered_of w sid'"
  by (simp add: buffered_of_def update_transcript_def Let_def split: option.splits)

lemma buffered_of_update_summary [simp]:
  "buffered_of (update_summary E w sid t) sid' = buffered_of w sid'"
  by (simp add: buffered_of_def update_summary_def Let_def split: option.splits)

lemma buffered_of_increment [simp]:
  "buffered_of (increment_expected_seq w sid) sid' = buffered_of w sid'"
  by (simp add: buffered_of_def increment_expected_seq_def split: option.splits)

lemma buffered_of_cong: "sessions w' = sessions w \<Longrightarrow> buffered_of w' sid = buffered_of w sid"
  by (simp add: buffered_of_def)

lemma buffered_of_generate [simp]:
  "buffered_of (generate_and_broadcast_summary E w sid) sid' = buffered_of w sid'"
  by (simp add: generate_and_broadcast_summary_def summarize_def broadcast_summary_def Let_def
      buffered_of_cong [of "broadcast _ _ _"] buffered_of_cong [of "_\<lparr>summarize_log := _\<rparr>"])

lemma length_buffered_remove:
  "length (buffered_of (remove_buffered_chunk w sid k) sid) \<le> length (buffered_of w sid)"
  by (simp add: buffered_of_def remove_buffered_chunk_def length_delete_le split: option.splits)

lemma length_buffered_remove_less:
  assumes "get_buffered_chunk w sid k = Some p"
  shows "length (buffered_of (remove_buffered_chunk w sid k) sid) < length (buffered_of w sid)"
proof -
  from assms obtain s where s: "sessions w sid = Some s" and m: "map_of (buffered_chunks s) k \<noteq> None"
    by (auto simp: get_buffered_chunk_def split: option.splits)
  from m have k: "k \<in> fst ` set (buffered_chunks s)"
    by (simp add: map_of_eq_None_iff)
  have "length (AList.delete k xs) < length xs" if "k \<in> fst ` set xs" for xs :: "(int \<times> string) list"
    using that by (induction xs) (auto simp: length_delete_le le_imp_less_Suc)
  with k s show ?thesis
    by (simp add: buffered_of_def remove_buffered_chunk_def)
qed

lemma get_expected_seq_remove [simp]:
  "get_expected_seq (remove_buffered_chunk w sid k) sid' = get_expected_seq w sid'"
  by (simp add: get_expected_seq_def remove_buffered_chunk_def split: option.splits)

lemma length_buffered_buffer:
  "length (buffered_of (buffer_future_chunk w sid k p) sid) \<le> Suc (length (buffered_of w sid))"
proof -
  have "length (AList.update k v xs) \<le> Suc (length xs)" for v and xs :: "(int \<times> string) list"
    by (induction xs) auto
  then show ?thesis
    by (simp add: buffered_of_def buffer_future_chunk_def split: option.splits)
qed

lemma pipeline_buffered:
  "buffered_of (case tx of None \<Rightarrow> y
            | Some t \<Rightarrow>
                let w3 = update_transcript y sid t True;
                    w4 = broadcast_transcript_update E w3 sid t
                in case should_generate_summary E w4 sid
                         SUMMARY_WORD_THRESHOLD SUMMARY_TIME_INTERVAL of
                   (b, w5) \<Rightarrow>
                     if b then generate_and_broadcast_summary E w5 sid
                     else w5) sid' = buffered_of y sid'"
proof (cases tx)
  case None
  then show ?thesis by simp
next
  case (Some t)
  let ?w4 = "broadcast_transcript_update E (update_transcript y sid t True) sid t"
  obtain b w5 where d: "should_generate_summary E ?w4 sid SUMMARY_WORD_THRESHOLD SUMMARY_TIME_INTERVAL = (b, w5)"
    by (cases "should_generate_summary E ?w4 sid SUMMARY_WORD_THRESHOLD SUMMARY_TIME_INTERVAL")
  have "sessions w5 = sessions ?w4"
    using sessions_should_generate_summary [of E ?w4 sid SUMMARY_WORD_THRESHOLD SUMMARY_TIME_INTERVAL] d
    by simp
  then have "buffered_of w5 sid' = buffered_of y sid'"
    by (simp add: buffered_of_cong [of w5 ?w4] broadcast_transcript_update_def
        buffered_of_cong [of "broadcast _ _ _"])
  with Some d show ?thesis by (simp add: Let_def)
qed

lemma buffered_length_dom:
  "process_chunk_process_buffered_chunks_dom (Inl (E, w, sid, seq, p)) \<Longrightarrow>
     length (buffered_of (process_chunk E w sid seq p) sid)
       \<le> length (buffered_of w sid) + (if seq > get_expected_seq w sid then 1 else 0)"
  "process_chunk_process_buffered_chunks_dom (Inr (E, w, sid)) \<Longrightarrow>
     length (buffered_of (process_buffered_chunks E w sid) sid) \<le> length (buffered_of w sid)"
proof (induction rule: process_chunk_process_buffered_chunks.pinduct)
  case (1 E w sid seq chunk_path)
  note ps = process_chunk.psimps [OF "1.hyps"]
  show ?case
  proof (cases "seq = get_expected_seq w sid")
    case False
    then show ?thesis
      using length_buffered_buffer [of w sid seq chunk_path]
      by (subst ps) (auto simp: Let_def)
  next
    case True
    show ?thesis
    proof (cases "convert_to_wav E sid seq chunk_path")
      case None
      with True show ?thesis by (subst ps) simp
    next
      case (Some f)
      obtain tx y where t: "transcribe_chunk E w sid f = (tx, y)"
        by (cases "transcribe_chunk E w sid f")
      have y: "buffered_of y sid = buffered_of w sid"
        using sessions_transcribe_chunk [of E w sid f] t by (simp add: buffered_of_def)
      note ih = "1.IH" [OF refl _ _ Some t [symmetric] refl]
      from True Some t ih show ?thesis
        by (subst ps) (simp add: pipeline_buffered y)
    qed
  qed
next
  case (2 E w sid)
  note ps = process_buffered_chunks.psimps [OF "2.hyps"]
  show ?case
  proof (cases "get_buffered_chunk w sid (get_expected_seq w sid)")
    case None
    then show ?thesis by (subst ps) simp
  next
    case (Some p)
    let ?w1 = "remove_buffered_chunk w sid (get_expected_seq w sid)"
    have "length (buffered_of (process_buffered_chunks E w sid) sid)
            \<le> length (buffered_of (process_chunk E ?w1 sid (get_expected_seq w sid) p) sid)"
      using "2.IH"(2) [OF refl Some] Some
      by (subst ps) (simp add: Let_def)
    also have "\<dots> \<le> length (buffered_of ?w1 sid)"
      using "2.IH"(1) [OF refl Some] by simp
    also have "\<dots> \<le> length (buffered_of w sid)"
      by (rule length_buffered_remove)
    finally show ?thesis .
  qed
qed

termination process_chunk
proof (relation "measure (\<lambda>x. case x of
          Inl (E, w, sid, seq, p) \<Rightarrow> 2 * length (buffered_of w sid) + 1
        | Inr (E, w, sid) \<Rightarrow> 2 * length (buffered_of w sid))", goal_cases)
  case 1
  show ?case by simp
next
  case (2 E w sid seq chunk_path x x2 xa y xb)
  have "sessions y = sessions w"
    using sessions_transcribe_chunk [of E w sid x2] 2(5) [symmetric] by simp
  then have "buffered_of y sid = buffered_of w sid"
    by (simp add: buffered_of_def)
  then show ?case
    using 2 by (simp add: pipeline_buffered)
next
  case (3 E w sid x x2)
  then show ?case
    using length_buffered_remove_less [of w sid x x2] by simp
next
  case (4 E w sid x x2)
  then show ?case
    using length_buffered_remove_less [of w sid x x2]
      buffered_length_dom(1) [of E "remove_buffered_chunk w sid x" sid x x2]
    by simp
qed


text \<open>The two equations call each other without a guard; they are unfolded by hand.\<close>

declare process_chunk.simps [simp del] process_buffered_chunks.simps [simp del]

section \<open>The endpoint \<open>POST /session/{session_id}/end\<close> (app/main.py)\<close>

datatype http_error = HTTPException nat string

record end_response =
  resp_status :: string
  resp_session_id :: string
  resp_transcript :: string
  resp_summary :: string
  resp_metadata :: "session option"

text \<open>\<open>end_session\<close>: an exception of the body would become \<open>HTTPException 500\<close>; none of
  the modelled operations raises, and \<open>finalize_session\<close> catches its own.\<close>

definition end_session :: "'r env \<Rightarrow> 'r world \<Rightarrow> string \<Rightarrow> (http_error + end_response) \<times> 'r world" where
  "end_session E w sid =
     (let w1 = finalize_session E w sid
      in (Inr \<lparr>resp_status = ''ended'', resp_session_id = sid,
               resp_transcript = get_transcript w1 sid, resp_summary = get_summary w1 sid,
               resp_metadata = get_session_metadata w1 sid\<rparr>, w1))"

section \<open>The operations of a running process\<close>

text \<open>
  The calls by which the endpoints of \<open>main.py\<close> change the process state: creating a
  session, processing an uploaded chunk, finalizing a session, deleting a session, and a
  WebSocket client connecting or disconnecting. \<open>run\<close> applies a list of them, one
  after the other, to the state of a process that has just started.
\<close>

text \<open>The state of a process that has just started: no session, no recognizer, no
  connection.\<close>

definition initial_world :: "'r world" where
  "initial_world = \<lparr>sessions = Map.empty, recognizers = Map.empty, active_connections = [],
                     delivered = [], summarize_log = [], clock_reads = 0\<rparr>"

datatype operation =
    CreateSession string
  | ProcessChunk string int path
  | FinalizeSession string
  | CleanupSession string
  | Connect nat
  | Disconnect nat

fun apply_operation :: "'r env \<Rightarrow> 'r world \<Rightarrow> operation \<Rightarrow> 'r world" where
  "apply_operation E w (CreateSession sid) = create_session E w sid"
| "apply_operation E w (ProcessChunk sid seq chunk_path) = process_chunk E w sid seq chunk_path"
| "apply_operation E w (FinalizeSession sid) = finalize_session E w sid"
| "apply_operation E w (CleanupSession sid) = cleanup_session w sid"
| "apply_operation E w (Connect c) = connect w c"
| "apply_operation E w (Disconnect c) = disconnect w c"

definition run :: "'r env \<Rightarrow> operation list \<Rightarrow> 'r world" where
  "run E ops = foldl (apply_operation E) initial_world ops"

section \<open>A concrete environment and concrete states\<close>

text \<open>
  \<open>env0\<close> is used to run the definitions on examples: a chunk's path spells the words
  spoken in it, the conversion always succeeds, the recognizer returns the words of the
  last file it was fed, LexRank returns a fixed sentence, connection 2 is broken, and the
  clock advances by one second at each reading.
\<close>

definition env0 :: "string list env" where
  "env0 = \<lparr>ffmpeg = (\<lambda>sid seq p. Some (Wav 1 16000 (str_of p))),
           vosk_new = [],
           vosk_accept = (\<lambda>r frames. r @ [frames]),
           vosk_final = (\<lambda>r. (r, if r = [] then [] else last r)),
           lexrank = (\<lambda>t n. Some ''a summary''),
           send_text = (\<lambda>c m. c \<noteq> 2),
           clock = (\<lambda>i. real i)\<rparr>"

text \<open>A session record with a given transcript word count and time of last summary.\<close>

definition session_with :: "nat \<Rightarrow> real \<Rightarrow> session" where
  "session_with n t =
     \<lparr>sess_id = ''S1'', created_at = 0, status = Active, chunks_received = 0,
      transcript = [], summary = [], expected_seq = 0, buffered_chunks = [],
      last_summary_time = t, word_count = n, ended_at = None\<rparr>"

definition world_with :: "session \<Rightarrow> nat \<Rightarrow> string list world" where
  "world_with s reads = initial_world\<lparr>sessions := [''S1'' \<mapsto> s], clock_reads := reads\<rparr>"

text \<open>\<open>env_bad\<close> is \<open>env0\<close> with a conversion that fails for chunk 0.\<close>

definition env_bad :: "string list env" where
  "env_bad = env0\<lparr>ffmpeg := (\<lambda>sid seq p. if seq = 0 then None else ffmpeg env0 sid seq p)\<rparr>"

text \<open>The path that spells a text, and the state after session \<open>S1\<close> is created.\<close>

definition chunk :: "string \<Rightarrow> path" where
  "chunk t = (case t of c # cs \<Rightarrow> Path c cs | [] \<Rightarrow> Path CHR ''.'' [])"

definition world1 :: "string list world" where
  "world1 = create_session env0 initial_world ''S1''"

text \<open>A state with no session and the given connections.\<close>

definition world_conns :: "nat list \<Rightarrow> string list world" where
  "world_conns cs = initial_world\<lparr>active_connections := cs\<rparr>"

text \<open>\<open>env_quiet\<close> is \<open>env0\<close> with a LexRank that selects no sentence. \<open>world_text\<close> holds
  session \<open>S1\<close> with a given transcript and summary, one working connection, and a
  recognizer whose last file spelled \<open>pending\<close>.\<close>

definition env_quiet :: "string list env" where
  "env_quiet = env0\<lparr>lexrank := (\<lambda>t n. Some [])\<rparr>"

definition world_text :: "string \<Rightarrow> string \<Rightarrow> string \<Rightarrow> string list world" where
  "world_text t s pending =
     initial_world\<lparr>sessions := [''S1'' \<mapsto> (session_with (length (py_split t)) 0)
                                   \<lparr>transcript := t, summary := s\<rparr>],
                    recognizers := [''S1'' \<mapsto> [pending]],
                    active_connections := [1]\<rparr>"

definition thirty_words :: string where
  "thirty_words = '' ab ab ab ab ab ab ab ab ab ab ab ab ab ab ab ab ab ab ab ab ab ab ab ab ab ab ab ab ab ab''"

section \<open>Unfolding \<open>process_chunk\<close> case by case\<close>

text \<open>\<open>run_stages\<close> names the stages of \<open>process_chunk\<close> between the conversion and the
  increment of \<open>expected_seq\<close> (workers.py, lines 59-74).\<close>

definition run_stages :: "'r env \<Rightarrow> 'r world \<Rightarrow> string \<Rightarrow> wav \<Rightarrow> 'r world" where
  "run_stages E w sid wav_file =
     (case transcribe_chunk E w sid wav_file of (tx, w1) \<Rightarrow>
        (case tx of
           None \<Rightarrow> w1
         | Some t \<Rightarrow>
             (let w3 = update_transcript w1 sid t True;
                  w4 = broadcast_transcript_update E w3 sid t
              in case should_generate_summary E w4 sid
                        SUMMARY_WORD_THRESHOLD SUMMARY_TIME_INTERVAL of
                   (b, w5) \<Rightarrow>
                     if b then generate_and_broadcast_summary E w5 sid else w5)))"

lemma process_chunk_stale:
  "seq < get_expected_seq w sid \<Longrightarrow> process_chunk E w sid seq p = w"
  by (subst process_chunk.simps) simp

lemma process_chunk_future:
  "get_expected_seq w sid < seq \<Longrightarrow>
   process_chunk E w sid seq p = buffer_future_chunk w sid seq p"
  by (subst process_chunk.simps) simp

lemma process_chunk_convert_fails:
  "seq = get_expected_seq w sid \<Longrightarrow> convert_to_wav E sid seq p = None \<Longrightarrow>
   process_chunk E w sid seq p = w"
  by (subst process_chunk.simps) simp

lemma process_chunk_expected:
  "seq = get_expected_seq w sid \<Longrightarrow> convert_to_wav E sid seq p = Some f \<Longrightarrow>
   process_chunk E w sid seq p =
     process_buffered_chunks E (increment_expected_seq (run_stages E w sid f) sid) sid"
  by (subst process_chunk.simps) (simp add: run_stages_def Let_def split: prod.splits)

lemma process_buffered_chunks_done:
  "get_buffered_chunk w sid (get_expected_seq w sid) = None \<Longrightarrow>
   process_buffered_chunks E w sid = w"
  by (subst process_buffered_chunks.simps) simp

lemma process_buffered_chunks_next:
  "get_buffered_chunk w sid (get_expected_seq w sid) = Some p \<Longrightarrow>
   process_buffered_chunks E w sid =
     process_buffered_chunks E
       (process_chunk E (remove_buffered_chunk w sid (get_expected_seq w sid)) sid
          (get_expected_seq w sid) p) sid"
  by (subst process_buffered_chunks.simps) (simp add: Let_def)

text \<open>The equations that evaluate a run on concrete states.\<close>

lemmas eval_defs =
  world1_def create_session_def initial_world_def now_def tick_def env0_def env_bad_def
  chunk_def process_chunk_stale process_chunk_future process_chunk_expected
  process_chunk_convert_fails process_buffered_chunks_done process_buffered_chunks_next
  get_expected_seq_def buffer_future_chunk_def convert_to_wav_def get_buffered_chunk_def
  run_stages_def transcribe_chunk_def get_recognizer_def VOSK_SAMPLE_RATE_def strip_def
  is_space_def update_transcript_def py_split_def broadcast_transcript_update_def
  broadcast_def should_generate_summary_def SUMMARY_WORD_THRESHOLD_def
  SUMMARY_TIME_INTERVAL_def increment_expected_seq_def remove_buffered_chunk_def
  get_transcript_def get_summary_def buffered_of_def

section \<open>The summary trigger\<close>

text \<open>C4: for an existing session and the configured constants (200 words, 30 seconds)
  with the floor of 50 words, the decision is true exactly when the word count is at
  least 200, or at least 30 seconds have passed since the last summary and the word count
  exceeds 50. So 200 words or more trigger whatever the elapsed time, and 60 words trigger
  exactly when 30 seconds or more have passed.\<close>

theorem should_generate_summary_decision:
  assumes "sessions w sid = Some s"
  shows "(fst (should_generate_summary E w sid SUMMARY_WORD_THRESHOLD SUMMARY_TIME_INTERVAL)
            \<longleftrightarrow> (word_count s \<ge> 200 \<or> (now E w - last_summary_time s \<ge> 30 \<and> word_count s > 50)))
       \<and> (word_count s \<ge> 200 \<longrightarrow>
            fst (should_generate_summary E w sid SUMMARY_WORD_THRESHOLD SUMMARY_TIME_INTERVAL))
       \<and> (word_count s = 60 \<longrightarrow>
            (fst (should_generate_summary E w sid SUMMARY_WORD_THRESHOLD SUMMARY_TIME_INTERVAL)
               \<longleftrightarrow> now E w - last_summary_time s \<ge> 30))"
  using assms
  by (auto simp: should_generate_summary_def SUMMARY_WORD_THRESHOLD_def
      SUMMARY_TIME_INTERVAL_def Let_def)

text \<open>With 60 words, a last summary at second 5 and the clock at 35 the decision is true;
  with the clock at 34 it is false; with 200 words it is true at once.\<close>

theorem should_generate_summary_decision_witness:
  "sessions (world_with (session_with 60 5) 35) ''S1'' = Some (session_with 60 5)
   \<and> fst (should_generate_summary env0 (world_with (session_with 60 5) 35) ''S1''
            SUMMARY_WORD_THRESHOLD SUMMARY_TIME_INTERVAL)
   \<and> \<not> fst (should_generate_summary env0 (world_with (session_with 60 5) 34) ''S1''
            SUMMARY_WORD_THRESHOLD SUMMARY_TIME_INTERVAL)
   \<and> fst (should_generate_summary env0 (world_with (session_with 200 5) 5) ''S1''
            SUMMARY_WORD_THRESHOLD SUMMARY_TIME_INTERVAL)"
  using should_generate_summary_decision [of "world_with (session_with 60 5) 35" "''S1''"
      "session_with 60 5" env0]
    should_generate_summary_decision [of "world_with (session_with 60 5) 34" "''S1''"
      "session_with 60 5" env0]
    should_generate_summary_decision [of "world_with (session_with 200 5) 5" "''S1''"
      "session_with 200 5" env0]
  by (simp add: world_with_def session_with_def initial_world_def now_def env0_def)

section \<open>Admission\<close>

text \<open>C3: an arrival below \<open>expected_seq\<close> returns the state unchanged; an arrival above
  it, for an existing session, changes nothing but that session's buffer, where the path
  is stored under its sequence number, replacing an earlier entry for that number.\<close>

theorem process_chunk_admission:
  "(seq < get_expected_seq w sid \<longrightarrow> process_chunk E w sid seq p = w)
   \<and> (get_expected_seq w sid < seq \<longrightarrow> sessions w sid = Some s \<longrightarrow>
        process_chunk E w sid seq p =
          w\<lparr>sessions := (sessions w)(sid \<mapsto>
               s\<lparr>buffered_chunks := AList.update seq (str_of p) (buffered_chunks s)\<rparr>)\<rparr>
        \<and> map_of (buffered_of (process_chunk E w sid seq p) sid)
            = (map_of (buffered_chunks s))(seq \<mapsto> str_of p))"
  by (simp add: process_chunk_stale process_chunk_future buffer_future_chunk_def
      buffered_of_def update_conv')

text \<open>After chunk 0 of session \<open>S1\<close> is processed, chunk 0 again changes nothing, and
  chunk 3 sent twice leaves the second path in the buffer.\<close>

theorem process_chunk_admission_witness:
  "get_expected_seq (process_chunk env0 world1 ''S1'' 0 (chunk ''zero'')) ''S1'' = 1
   \<and> process_chunk env0 (process_chunk env0 world1 ''S1'' 0 (chunk ''zero'')) ''S1'' 0
        (chunk ''again'')
     = process_chunk env0 world1 ''S1'' 0 (chunk ''zero'')
   \<and> buffered_of
        (process_chunk env0
           (process_chunk env0 (process_chunk env0 world1 ''S1'' 0 (chunk ''zero'')) ''S1'' 3
              (chunk ''three''))
           ''S1'' 3 (chunk ''trois''))
        ''S1''
     = [(3, ''trois'')]"
  using process_chunk_admission [of 0 "process_chunk env0 world1 ''S1'' 0 (chunk ''zero'')"
      "''S1''" env0 "chunk ''again''"]
  by (simp add: eval_defs)

section \<open>Broadcasting\<close>

lemma send_loop_filter:
  "send_loop E m cs = (filter (\<lambda>c. send_text E c m) cs, filter (\<lambda>c. \<not> send_text E c m) cs)"
  by (induction cs) simp_all

lemma delivered_foldl_disconnect [simp]: "delivered (foldl disconnect w cs) = delivered w"
  by (induction cs arbitrary: w) (simp_all add: disconnect_def)

lemma active_foldl_disconnect:
  "active_connections (foldl disconnect w ds)
     = foldl (\<lambda>l c. remove1 c l) (active_connections w) ds"
proof (induction ds arbitrary: w)
  case Nil
  show ?case by simp
next
  case (Cons d ds)
  have "active_connections (disconnect w d) = remove1 d (active_connections w)"
    by (simp add: disconnect_def remove1_idem)
  with Cons show ?case by simp
qed

lemma foldl_remove1_failed:
  "\<forall>x \<in> set pre. P x \<Longrightarrow>
   foldl (\<lambda>l c. remove1 c l) (pre @ l) (filter (\<lambda>c. \<not> P c) l) = pre @ filter P l"
proof (induction l arbitrary: pre)
  case Nil
  show ?case by simp
next
  case (Cons c cs)
  show ?case
  proof (cases "P c")
    case True
    with Cons.prems have "\<forall>x \<in> set (pre @ [c]). P x" by simp
    from Cons.IH [OF this] True show ?thesis by simp
  next
    case False
    with Cons.prems have "c \<notin> set pre" by auto
    then have "remove1 c (pre @ c # cs) = pre @ cs"
      by (simp add: remove1_append)
    with Cons.IH [OF Cons.prems] False show ?thesis by simp
  qed
qed

lemma active_broadcast:
  "active_connections (broadcast E w m) = filter (\<lambda>c. send_text E c m) (active_connections w)"
  using foldl_remove1_failed [of "[]" "\<lambda>c. send_text E c m" "active_connections w"]
  by (simp add: broadcast_def send_loop_filter active_foldl_disconnect)

lemma delivered_broadcast:
  "delivered (broadcast E w m)
     = delivered w @ map (\<lambda>c. (c, m)) (filter (\<lambda>c. send_text E c m) (active_connections w))"
  by (simp add: broadcast_def send_loop_filter)

text \<open>C8: a broadcast delivers the message to every registered connection whose send
  succeeds, whatever happens to the others, and leaves exactly those connections
  registered. A connection whose send failed is no longer registered, and no later
  broadcast, of any message and with any behaviour of the connections, delivers to it.\<close>

theorem broadcast_isolates_failures:
  "delivered (broadcast E w m)
     = delivered w @ map (\<lambda>c. (c, m)) (filter (\<lambda>c. send_text E c m) (active_connections w))
   \<and> active_connections (broadcast E w m)
     = filter (\<lambda>c. send_text E c m) (active_connections w)
   \<and> (\<forall>c. \<not> send_text E c m \<longrightarrow>
          c \<notin> set (active_connections (broadcast E w m))
          \<and> (\<forall>E' m'. c \<notin> fst ` set (drop (length (delivered (broadcast E w m)))
                                  (delivered (broadcast E' (broadcast E w m) m')))))"
proof -
  have "c \<notin> fst ` set (drop (length (delivered (broadcast E w m)))
                                  (delivered (broadcast E' (broadcast E w m) m')))"
    if "\<not> send_text E c m" for c E' m'
    using that by (auto simp: delivered_broadcast [of E' "broadcast E w m"] active_broadcast)
  then show ?thesis
    by (simp add: delivered_broadcast [of E w] active_broadcast)
qed

text \<open>Three connections, the second broken: the first and third receive the message,
  the registry is left with them, and the next message reaches them only.\<close>

theorem broadcast_isolates_failures_witness:
  "\<not> send_text env0 2 (SummaryMsg ''S1'' ''s'')
   \<and> delivered (broadcast env0 (world_conns [1, 2, 3]) (SummaryMsg ''S1'' ''s''))
     = [(1, SummaryMsg ''S1'' ''s''), (3, SummaryMsg ''S1'' ''s'')]
   \<and> active_connections (broadcast env0 (world_conns [1, 2, 3]) (SummaryMsg ''S1'' ''s'')) = [1, 3]
   \<and> delivered (broadcast env0 (broadcast env0 (world_conns [1, 2, 3]) (SummaryMsg ''S1'' ''s''))
         (SummaryMsg ''S1'' ''t''))
     = [(1, SummaryMsg ''S1'' ''s''), (3, SummaryMsg ''S1'' ''s''),
        (1, SummaryMsg ''S1'' ''t''), (3, SummaryMsg ''S1'' ''t'')]"
  using broadcast_isolates_failures [of env0 "world_conns [1, 2, 3]" "SummaryMsg ''S1'' ''s''"]
  by (simp add: world_conns_def initial_world_def env0_def broadcast_def disconnect_def)

section \<open>Summaries while chunks are processed\<close>

text \<open>A property kept by buffering, by the stages followed by the increment, and by
  removing a buffered chunk is kept by \<open>process_chunk\<close> and by the loop.\<close>

lemma process_chunk_preserves_aux:
  assumes buf: "\<And>w seq p. I w \<Longrightarrow> I (buffer_future_chunk w sid seq p)"
    and stages: "\<And>w f. I w \<Longrightarrow> I (increment_expected_seq (run_stages E w sid f) sid)"
    and rem: "\<And>w k. I w \<Longrightarrow> I (remove_buffered_chunk w sid k)"
  shows "E' = E \<Longrightarrow> sid' = sid \<Longrightarrow> I w \<Longrightarrow> I (process_chunk E' w sid' seq p)"
    and "E' = E \<Longrightarrow> sid' = sid \<Longrightarrow> I w \<Longrightarrow> I (process_buffered_chunks E' w sid')"
proof (induction E' w sid' seq p and E' w sid' rule: process_chunk_process_buffered_chunks.induct)
  case (1 E' w sid' seq chunk_path)
  note [simp] = \<open>E' = E\<close> \<open>sid' = sid\<close>
  consider "seq < get_expected_seq w sid" | "get_expected_seq w sid < seq"
    | "seq = get_expected_seq w sid" by linarith
  then show ?case
  proof cases
    case 1
    with "1.prems" show ?thesis by (simp add: process_chunk_stale)
  next
    case 2
    with "1.prems" show ?thesis by (simp add: process_chunk_future buf)
  next
    case 3
    show ?thesis
    proof (cases "convert_to_wav E sid seq chunk_path")
      case None
      with 3 "1.prems" show ?thesis by (simp add: process_chunk_convert_fails)
    next
      case (Some f)
      obtain tx y where t: "transcribe_chunk E w sid f = (tx, y)"
        by (cases "transcribe_chunk E w sid f")
      have "I (process_buffered_chunks E (increment_expected_seq (run_stages E w sid f) sid) sid)"
        using "1.IH" [unfolded \<open>E' = E\<close> \<open>sid' = sid\<close>, OF refl _ _ _ _ refl, of f tx y]
          3 Some stages [OF "1.prems"(3), of f] t
        by (simp add: run_stages_def)
      with 3 Some show ?thesis by (simp add: process_chunk_expected)
    qed
  qed
next
  case (2 E' w sid')
  note [simp] = \<open>E' = E\<close> \<open>sid' = sid\<close>
  show ?case
  proof (cases "get_buffered_chunk w sid (get_expected_seq w sid)")
    case None
    with "2.prems" show ?thesis by (simp add: process_buffered_chunks_done)
  next
    case (Some p)
    have "I (process_chunk E (remove_buffered_chunk w sid (get_expected_seq w sid)) sid
               (get_expected_seq w sid) p)"
      using "2.IH"(1) [unfolded \<open>E' = E\<close> \<open>sid' = sid\<close>, OF refl, of p] Some
        rem [OF "2.prems"(3)] by simp
    then show ?thesis
      using "2.IH"(2) [unfolded \<open>E' = E\<close> \<open>sid' = sid\<close>, OF refl, of p] Some
      by (simp add: process_buffered_chunks_next)
  qed
qed

lemma process_chunk_preserves:
  assumes "\<And>w seq p. I w \<Longrightarrow> I (buffer_future_chunk w sid seq p)"
    and "\<And>w f. I w \<Longrightarrow> I (increment_expected_seq (run_stages E w sid f) sid)"
    and "\<And>w k. I w \<Longrightarrow> I (remove_buffered_chunk w sid k)"
    and "I w"
  shows "I (process_chunk E w sid seq p)" and "I (process_buffered_chunks E w sid)"
  using process_chunk_preserves_aux [of I sid E, OF assms(1-3) refl refl assms(4)]
  by blast+

lemma get_summary_cong: "sessions w' = sessions w \<Longrightarrow> get_summary w' sid = get_summary w sid"
  by (simp add: get_summary_def)

lemma get_transcript_cong:
  "sessions w' = sessions w \<Longrightarrow> get_transcript w' sid = get_transcript w sid"
  by (simp add: get_transcript_def)

lemma get_summary_buffer [simp]:
  "get_summary (buffer_future_chunk w sid seq p) sid' = get_summary w sid'"
  by (simp add: get_summary_def buffer_future_chunk_def split: option.splits)

lemma get_summary_remove [simp]:
  "get_summary (remove_buffered_chunk w sid k) sid' = get_summary w sid'"
  by (simp add: get_summary_def remove_buffered_chunk_def split: option.splits)

lemma get_summary_increment [simp]:
  "get_summary (increment_expected_seq w sid) sid' = get_summary w sid'"
  by (simp add: get_summary_def increment_expected_seq_def split: option.splits)

lemma get_summary_update_transcript [simp]:
  "get_summary (update_transcript w sid t a) sid' = get_summary w sid'"
  by (simp add: get_summary_def update_transcript_def Let_def split: option.splits)

lemma get_summary_update_summary:
  "get_summary (update_summary E w sid t) sid'
     = (if sid' = sid \<and> sessions w sid \<noteq> None then t else get_summary w sid')"
  by (auto simp: get_summary_def update_summary_def split: option.splits)

lemma generate_short:
  "length (py_split (get_transcript w sid)) < 30 \<Longrightarrow> generate_and_broadcast_summary E w sid = w"
  by (simp add: generate_and_broadcast_summary_def)

lemma generate_empty_result:
  "summarize_n E (get_transcript w sid) SUMMARY_SENTENCE_COUNT = [] \<Longrightarrow>
   sessions (generate_and_broadcast_summary E w sid) = sessions w
   \<and> delivered (generate_and_broadcast_summary E w sid) = delivered w"
  by (simp add: generate_and_broadcast_summary_def summarize_def Let_def)

lemma generate_stores:
  "30 \<le> length (py_split (get_transcript w sid)) \<Longrightarrow>
   summarize_n E (get_transcript w sid) SUMMARY_SENTENCE_COUNT \<noteq> [] \<Longrightarrow>
   sessions w sid \<noteq> None \<Longrightarrow>
   get_summary (generate_and_broadcast_summary E w sid) sid
     = summarize_n E (get_transcript w sid) SUMMARY_SENTENCE_COUNT"
  by (auto simp: generate_and_broadcast_summary_def summarize_def Let_def broadcast_summary_def
      get_summary_cong [of "broadcast _ _ _"] get_summary_update_summary py_split_def)

lemma generate_keeps_summary:
  "get_summary w sid' \<noteq> [] \<Longrightarrow> get_summary (generate_and_broadcast_summary E w sid) sid' \<noteq> []"
  by (auto simp: generate_and_broadcast_summary_def summarize_def Let_def broadcast_summary_def
      get_summary_cong [of "broadcast _ _ _"] get_summary_update_summary
      get_summary_cong [of "_\<lparr>summarize_log := _\<rparr>"])

lemma run_stages_keeps_summary:
  assumes "get_summary w sid' \<noteq> []"
  shows "get_summary (run_stages E w sid f) sid' \<noteq> []"
proof -
  obtain tx y where t: "transcribe_chunk E w sid f = (tx, y)"
    by (cases "transcribe_chunk E w sid f")
  have y: "sessions y = sessions w"
    using sessions_transcribe_chunk [of E w sid f] t by simp
  show ?thesis
  proof (cases tx)
    case None
    with t y assms show ?thesis
      by (simp add: run_stages_def get_summary_cong [of y w])
  next
    case (Some u)
    let ?w4 = "broadcast_transcript_update E (update_transcript y sid u True) sid u"
    obtain b w5 where d: "should_generate_summary E ?w4 sid SUMMARY_WORD_THRESHOLD
        SUMMARY_TIME_INTERVAL = (b, w5)"
      by (cases "should_generate_summary E ?w4 sid SUMMARY_WORD_THRESHOLD SUMMARY_TIME_INTERVAL")
    have "sessions w5 = sessions ?w4"
      using sessions_should_generate_summary [of E ?w4 sid SUMMARY_WORD_THRESHOLD
          SUMMARY_TIME_INTERVAL] d by simp
    then have "get_summary w5 sid' = get_summary ?w4 sid'"
      by (rule get_summary_cong)
    also have "\<dots> = get_summary y sid'"
      by (simp add: broadcast_transcript_update_def get_summary_cong [of "broadcast _ _ _"])
    also have "\<dots> = get_summary w sid'"
      using y by (rule get_summary_cong)
    finally have "get_summary w5 sid' = get_summary w sid'" .
    with assms have "get_summary w5 sid' \<noteq> []" by simp
    with t Some d show ?thesis
      by (simp add: run_stages_def generate_keeps_summary)
  qed
qed

lemma process_chunk_keeps_summary:
  assumes "get_summary w sid' \<noteq> []"
  shows "get_summary (process_chunk E w sid seq p) sid' \<noteq> []"
  by (rule process_chunk_preserves(1) [where I = "\<lambda>w. get_summary w sid' \<noteq> []", OF _ _ _ assms])
    (simp_all add: run_stages_keeps_summary)

text \<open>C9: \<open>_generate_and_broadcast_summary\<close> returns the state untouched when the
  transcript has fewer than 30 words, and changes neither the sessions nor the delivered
  messages when the summarizer's result is empty. A session whose summary is not empty
  still has a non-empty summary after the summary step, after \<open>process_chunk\<close> and after
  the loop over the buffered chunks.\<close>

theorem summary_never_regresses:
  "(length (py_split (get_transcript w sid)) < 30 \<longrightarrow>
      generate_and_broadcast_summary E w sid = w)
   \<and> (summarize_n E (get_transcript w sid) SUMMARY_SENTENCE_COUNT = [] \<longrightarrow>
        sessions (generate_and_broadcast_summary E w sid) = sessions w
        \<and> delivered (generate_and_broadcast_summary E w sid) = delivered w)
   \<and> (get_summary w sid' \<noteq> [] \<longrightarrow>
        get_summary (generate_and_broadcast_summary E w sid) sid' \<noteq> []
        \<and> get_summary (process_chunk E w sid seq p) sid' \<noteq> []
        \<and> get_summary (process_buffered_chunks E w sid) sid' \<noteq> [])"
proof -
  have "get_summary (process_buffered_chunks E w sid) sid' \<noteq> []" if "get_summary w sid' \<noteq> []"
    by (rule process_chunk_preserves(2) [where I = "\<lambda>w. get_summary w sid' \<noteq> []", OF _ _ _ that])
      (simp_all add: run_stages_keeps_summary)
  then show ?thesis
    by (simp add: generate_short generate_empty_result generate_keeps_summary
        process_chunk_keeps_summary)
qed

text \<open>A two-word transcript: the summary step does nothing. Thirty words and a
  summarizer with an empty result: the sessions are unchanged. A chunk processed in a
  session with a summary leaves the summary.\<close>

theorem summary_never_regresses_witness:
  "length (py_split (get_transcript (world_text '' two words'' ''old'' []) ''S1'')) < 30
   \<and> generate_and_broadcast_summary env0 (world_text '' two words'' ''old'' []) ''S1''
     = world_text '' two words'' ''old'' []
   \<and> summarize_n env_quiet (get_transcript (world_text thirty_words ''old'' []) ''S1'')
        SUMMARY_SENTENCE_COUNT = []
   \<and> sessions (generate_and_broadcast_summary env_quiet (world_text thirty_words ''old'' [])
        ''S1'') = sessions (world_text thirty_words ''old'' [])
   \<and> get_summary (world_text '' two words'' ''old'' []) ''S1'' = ''old''
   \<and> get_summary (process_chunk env0 (world_text '' two words'' ''old'' []) ''S1'' 0
        (chunk ''three'')) ''S1'' = ''old''"
  using summary_never_regresses [of "world_text '' two words'' ''old'' []" "''S1''" env0 "''S1''"
      0 "chunk ''three''"]
    summary_never_regresses [of "world_text thirty_words ''old'' []" "''S1''" env_quiet "''S1''"
      0 "chunk ''three''"]
  by (simp add: eval_defs world_text_def session_with_def env_quiet_def thirty_words_def
      summarize_n_def generate_and_broadcast_summary_def summarize_def)

section \<open>Finalization\<close>

text \<open>\<open>flush_recognizer\<close> names the first step of \<open>finalize_session\<close> (workers.py, lines
  189-191): the recognizer's last text, when there is one, is appended to the
  transcript.\<close>

definition flush_recognizer :: "'r env \<Rightarrow> 'r world \<Rightarrow> string \<Rightarrow> 'r world" where
  "flush_recognizer E w sid =
     (case transcriber_finalize_session E w sid of (final_text, w1) \<Rightarrow>
        (case final_text of None \<Rightarrow> w1 | Some t \<Rightarrow> update_transcript w1 sid t True))"

lemma split_from_space:
  "is_space c \<Longrightarrow> split_from cur (a @ c # b) = split_from cur a @ split_from [] b"
  by (induction a arbitrary: cur) simp_all

lemma py_split_append:
  "py_split (a @ CHR '' '' # b) = py_split a @ py_split b"
  using split_from_space [of "CHR '' ''" "[]" a b] by (simp add: py_split_def is_space_def)

lemma length_strip_le: "length (strip t) \<le> length t"
proof -
  have "length (strip t) \<le> length (dropWhile is_space t)"
    using length_dropWhile_le [of is_space "rev (dropWhile is_space t)"] by (simp add: strip_def)
  also have "\<dots> \<le> length t" by (rule length_dropWhile_le)
  finally show ?thesis .
qed

lemma py_split_Nil [simp]: "py_split [] = []"
  by (simp add: py_split_def)

lemma finalize_session_unfold:
  "finalize_session E w sid =
     (let w2 = flush_recognizer E w sid;
          t = get_transcript w2 sid;
          w3 = (if 10 \<le> length (py_split t)
                then broadcast_summary E
                       (update_summary E (w2\<lparr>summarize_log := summarize_log w2 @ [t]\<rparr>) sid
                          (summarize_n E t SUMMARY_SENTENCE_COUNT))
                       sid (summarize_n E t SUMMARY_SENTENCE_COUNT)
                else w2);
          w4 = mark_session_ended E w3 sid
      in broadcast E w4 (SessionEnded sid (get_transcript w4 sid) (get_summary w4 sid)))"
  by (auto simp: finalize_session_def flush_recognizer_def summarize_def Let_def
      split: prod.splits option.splits)

lemma summarize_log_foldl_disconnect [simp]:
  "summarize_log (foldl disconnect w cs) = summarize_log w"
  by (induction cs arbitrary: w) (simp_all add: disconnect_def)

lemma summarize_log_broadcast [simp]: "summarize_log (broadcast E w m) = summarize_log w"
  by (simp add: broadcast_def split: prod.splits)

lemma summarize_log_update_summary [simp]:
  "summarize_log (update_summary E w sid t) = summarize_log w"
  by (simp add: update_summary_def tick_def split: option.splits)

lemma summarize_log_mark_ended [simp]:
  "summarize_log (mark_session_ended E w sid) = summarize_log w"
  by (simp add: mark_session_ended_def tick_def split: option.splits)

lemma summarize_log_flush [simp]:
  "summarize_log (flush_recognizer E w sid) = summarize_log w"
  by (simp add: flush_recognizer_def transcriber_finalize_session_def update_transcript_def
      Let_def split: option.splits)

lemma get_transcript_flush:
  "sessions w sid = Some s \<Longrightarrow>
   get_transcript (flush_recognizer E w sid) sid
     = (case fst (transcriber_finalize_session E w sid) of
          None \<Rightarrow> transcript s
        | Some x \<Rightarrow> transcript s @ '' '' @ x)"
  by (simp add: flush_recognizer_def transcriber_finalize_session_def update_transcript_def
      get_transcript_def Let_def split: option.splits)

text \<open>C5, as the code has it: \<open>finalize_session\<close> calls the summarizer exactly once, on the
  transcript after the flush, when that transcript has 10 words or more, and not at all
  otherwise; neither the stored word count nor the clock enters the decision. For an
  existing session the number of words after the flush is the number before plus the
  number of flushed words.\<close>

theorem finalize_forced_summary:
  "summarize_log (finalize_session E w sid)
     = summarize_log w
       @ (if 10 \<le> length (py_split (get_transcript (flush_recognizer E w sid) sid))
          then [get_transcript (flush_recognizer E w sid) sid] else [])
   \<and> (sessions w sid = Some s \<longrightarrow>
        length (py_split (get_transcript (flush_recognizer E w sid) sid))
          = length (py_split (transcript s))
            + (case fst (transcriber_finalize_session E w sid) of
                 None \<Rightarrow> 0
               | Some x \<Rightarrow> length (py_split x)))"
  by (simp add: finalize_session_unfold Let_def broadcast_summary_def get_transcript_flush
      py_split_append split: option.splits)


text \<open>Five words and four flushed words: no call. Five and five: one call.\<close>

theorem finalize_forced_summary_witness:
  "sessions (world_text '' one two three four five'' [] ''six seven eight nine'') ''S1''
     = Some ((session_with 5 0)\<lparr>transcript := '' one two three four five''\<rparr>)
   \<and> summarize_log (finalize_session env0
        (world_text '' one two three four five'' [] ''six seven eight nine'') ''S1'') = []
   \<and> summarize_log (finalize_session env0
        (world_text '' one two three four five'' [] ''six seven eight nine ten'') ''S1'')
     = ['' one two three four five six seven eight nine ten'']"
  using finalize_forced_summary [of env0
      "world_text '' one two three four five'' [] ''six seven eight nine''" "''S1''"
      "(session_with 5 0)\<lparr>transcript := '' one two three four five''\<rparr>"]
    finalize_forced_summary [of env0
      "world_text '' one two three four five'' [] ''six seven eight nine ten''" "''S1''"
      "(session_with 5 0)\<lparr>transcript := '' one two three four five''\<rparr>"]
  by (simp add: world_text_def session_with_def initial_world_def env0_def py_split_def
      is_space_def strip_def flush_recognizer_def transcriber_finalize_session_def
      update_transcript_def get_transcript_def Let_def)

text \<open>The scenario of the claim: five words, six flushed words. The total of 11 is not
  below the minimum of 10, and the summarizer is called once.\<close>

theorem finalize_eleven_words_counterexample:
  "length (py_split (get_transcript
      (world_text '' one two three four five'' [] ''six seven eight nine ten eleven'') ''S1'')) = 5
   \<and> fst (transcriber_finalize_session env0
        (world_text '' one two three four five'' [] ''six seven eight nine ten eleven'') ''S1'')
     = Some ''six seven eight nine ten eleven''
   \<and> length (py_split ''six seven eight nine ten eleven'') = 6
   \<and> summarize_log
        (world_text '' one two three four five'' [] ''six seven eight nine ten eleven'') = []
   \<and> summarize_log (finalize_session env0
        (world_text '' one two three four five'' [] ''six seven eight nine ten eleven'') ''S1'')
     = ['' one two three four five six seven eight nine ten eleven'']"
  by (simp add: finalize_session_unfold world_text_def session_with_def initial_world_def
      env0_def py_split_def
      is_space_def strip_def flush_recognizer_def transcriber_finalize_session_def
      update_transcript_def get_transcript_def Let_def broadcast_summary_def)


lemma summarize_n_short:
  "length t < 50 \<Longrightarrow> summarize_n E t n = []"
  using length_strip_le [of t] by (simp add: summarize_n_def)

lemma get_summary_update_summary_empty [simp]:
  "get_summary (update_summary E w sid []) sid = []"
  by (simp add: get_summary_def update_summary_def split: option.splits)

lemma get_transcript_update_summary [simp]:
  "get_transcript (update_summary E w sid t) sid' = get_transcript w sid'"
  by (simp add: get_transcript_def update_summary_def split: option.splits)

lemma get_summary_mark_ended [simp]:
  "get_summary (mark_session_ended E w sid) sid' = get_summary w sid'"
  by (simp add: get_summary_def mark_session_ended_def split: option.splits)

lemma get_transcript_mark_ended [simp]:
  "get_transcript (mark_session_ended E w sid) sid' = get_transcript w sid'"
  by (simp add: get_transcript_def mark_session_ended_def split: option.splits)

lemma get_summary_broadcast [simp]: "get_summary (broadcast E w m) sid = get_summary w sid"
  by (simp add: get_summary_def)

lemma get_transcript_broadcast [simp]:
  "get_transcript (broadcast E w m) sid = get_transcript w sid"
  by (simp add: get_transcript_def)

lemma get_summary_log [simp]:
  "get_summary (w\<lparr>summarize_log := l\<rparr>) sid = get_summary w sid"
  by (simp add: get_summary_def)

lemma get_transcript_log [simp]:
  "get_transcript (w\<lparr>summarize_log := l\<rparr>) sid = get_transcript w sid"
  by (simp add: get_transcript_def)

lemma connections_update_summary [simp]:
  "active_connections (update_summary E w sid t) = active_connections w"
  "delivered (update_summary E w sid t) = delivered w"
  by (simp_all add: update_summary_def tick_def split: option.splits)

lemma connections_mark_ended [simp]:
  "active_connections (mark_session_ended E w sid) = active_connections w"
  "delivered (mark_session_ended E w sid) = delivered w"
  by (simp_all add: mark_session_ended_def tick_def split: option.splits)

lemma connections_flush [simp]:
  "active_connections (flush_recognizer E w sid) = active_connections w"
  "delivered (flush_recognizer E w sid) = delivered w"
  by (simp_all add: flush_recognizer_def transcriber_finalize_session_def update_transcript_def
      Let_def split: option.splits)

text \<open>C10: when the transcript after the flush has at least 10 words and fewer than 50
  characters, the summarizer returns the empty string, \<open>finalize_session\<close> stores it as
  the session's summary whatever the summary was, and broadcasts it: the connections
  receive a summary message with the empty string and then \<open>session_ended\<close> with the
  empty summary.\<close>

theorem finalize_short_text_empties_summary:
  assumes "10 \<le> length (py_split (get_transcript (flush_recognizer E w sid) sid))"
    and "length (get_transcript (flush_recognizer E w sid) sid) < 50"
  shows "summarize_n E (get_transcript (flush_recognizer E w sid) sid) SUMMARY_SENTENCE_COUNT = []
       \<and> get_summary (finalize_session E w sid) sid = []
       \<and> delivered (finalize_session E w sid)
         = delivered w
           @ map (\<lambda>c. (c, SummaryMsg sid []))
               (filter (\<lambda>c. send_text E c (SummaryMsg sid [])) (active_connections w))
           @ map (\<lambda>c. (c, SessionEnded sid (get_transcript (flush_recognizer E w sid) sid) []))
               (filter (\<lambda>c. send_text E c
                    (SessionEnded sid (get_transcript (flush_recognizer E w sid) sid) []))
                  (filter (\<lambda>c. send_text E c (SummaryMsg sid [])) (active_connections w)))"
  using assms
  by (simp add: finalize_session_unfold Let_def summarize_n_short broadcast_summary_def
      delivered_broadcast active_broadcast)

text \<open>Ten one-letter words, 20 characters, and a stored summary: after finalization
  the summary is empty.\<close>

theorem finalize_short_text_empties_summary_witness:
  "length (py_split (get_transcript
       (flush_recognizer env0 (world_text '' a b c d e f g h i'' ''old summary'' ''j'') ''S1'')
       ''S1'')) = 10
   \<and> length (get_transcript
       (flush_recognizer env0 (world_text '' a b c d e f g h i'' ''old summary'' ''j'') ''S1'')
       ''S1'') = 20
   \<and> get_summary (world_text '' a b c d e f g h i'' ''old summary'' ''j'') ''S1'' = ''old summary''
   \<and> get_summary (finalize_session env0
        (world_text '' a b c d e f g h i'' ''old summary'' ''j'') ''S1'') ''S1'' = []
   \<and> delivered (finalize_session env0
        (world_text '' a b c d e f g h i'' ''old summary'' ''j'') ''S1'')
     = [(1, SummaryMsg ''S1'' []), (1, SessionEnded ''S1'' '' a b c d e f g h i j'' [])]"
  using finalize_short_text_empties_summary [of env0
      "world_text '' a b c d e f g h i'' ''old summary'' ''j''" "''S1''"]
  by (simp add: world_text_def session_with_def initial_world_def env0_def py_split_def
      is_space_def strip_def flush_recognizer_def transcriber_finalize_session_def
      update_transcript_def get_transcript_def get_summary_def Let_def)


section \<open>Unknown sessions\<close>

lemma sessions_generate_unknown:
  "sessions w sid = None \<Longrightarrow> sessions (generate_and_broadcast_summary E w sid) = sessions w"
  by (simp add: generate_and_broadcast_summary_def get_transcript_def)

lemma sessions_run_stages_unknown:
  assumes "sessions w sid = None"
  shows "sessions (run_stages E w sid f) = sessions w"
proof -
  obtain tx y where t: "transcribe_chunk E w sid f = (tx, y)"
    by (cases "transcribe_chunk E w sid f")
  have y: "sessions y = sessions w"
    using sessions_transcribe_chunk [of E w sid f] t by simp
  show ?thesis
  proof (cases tx)
    case None
    with t y show ?thesis by (simp add: run_stages_def)
  next
    case (Some u)
    have u: "update_transcript y sid u True = y"
      using y assms by (simp add: update_transcript_def)
    let ?w4 = "broadcast_transcript_update E y sid u"
    have w4: "sessions ?w4 = sessions w"
      using y by (simp add: broadcast_transcript_update_def)
    then have "should_generate_summary E ?w4 sid SUMMARY_WORD_THRESHOLD SUMMARY_TIME_INTERVAL
        = (False, ?w4)"
      using assms by (simp add: should_generate_summary_def)
    with t Some u w4 show ?thesis by (simp add: run_stages_def)
  qed
qed

lemma sessions_process_chunk_unknown:
  assumes "sessions w sid = None"
  shows "sessions (process_chunk E w sid seq p) = sessions w"
  by (rule process_chunk_preserves(1) [where I = "\<lambda>w'. sessions w' = sessions w", OF _ _ _ refl])
    (simp_all add: assms buffer_future_chunk_def increment_expected_seq_def
      remove_buffered_chunk_def sessions_run_stages_unknown)

lemma sessions_flush_unknown:
  "sessions w sid = None \<Longrightarrow> sessions (flush_recognizer E w sid) = sessions w"
  by (simp add: flush_recognizer_def transcriber_finalize_session_def update_transcript_def
      Let_def split: option.splits)

lemma sessions_finalize_unknown:
  assumes "sessions w sid = None"
  shows "sessions (finalize_session E w sid) = sessions w"
  using assms sessions_flush_unknown [OF assms, of E]
  by (simp add: finalize_session_unfold Let_def get_transcript_def mark_session_ended_def)

text \<open>C6, as the code has it: for a session id that is not in the store, the \<open>end\<close>
  endpoint answers \<open>ended\<close> with an empty transcript, an empty summary and empty metadata,
  and \<open>process_chunk\<close> returns normally; neither changes any session. No error is
  returned.\<close>

theorem unknown_session_not_rejected:
  assumes "sessions w sid = None"
  shows "fst (end_session E w sid)
           = Inr \<lparr>resp_status = ''ended'', resp_session_id = sid, resp_transcript = [],
                  resp_summary = [], resp_metadata = None\<rparr>
       \<and> sessions (snd (end_session E w sid)) = sessions w
       \<and> sessions (process_chunk E w sid seq p) = sessions w"
  using assms sessions_finalize_unknown [OF assms, of E]
  by (simp add: end_session_def Let_def get_transcript_def get_summary_def
      get_session_metadata_def sessions_process_chunk_unknown)

text \<open>Session \<open>S2\<close> was never created.\<close>

theorem unknown_session_not_rejected_witness:
  "sessions world1 ''S2'' = None
   \<and> fst (end_session env0 world1 ''S2'')
     = Inr \<lparr>resp_status = ''ended'', resp_session_id = ''S2'', resp_transcript = [],
            resp_summary = [], resp_metadata = None\<rparr>
   \<and> sessions (snd (end_session env0 world1 ''S2'')) = sessions world1
   \<and> sessions (process_chunk env0 world1 ''S2'' 0 (chunk ''hello'')) = sessions world1"
  using unknown_session_not_rejected [of world1 "''S2''" env0 0 "chunk ''hello''"]
  by (simp add: world1_def create_session_def initial_world_def tick_def)

text \<open>In a process that has just started, ending the unknown session \<open>ghost\<close> succeeds
  with status \<open>ended\<close>, and a chunk for it is accepted without effect.\<close>

theorem unknown_session_counterexample:
  "sessions (initial_world :: string list world) ''ghost'' = None
   \<and> end_session env0 initial_world ''ghost''
     = (Inr \<lparr>resp_status = ''ended'', resp_session_id = ''ghost'', resp_transcript = [],
             resp_summary = [], resp_metadata = None\<rparr>, initial_world)
   \<and> process_chunk env0 initial_world ''ghost'' 7 (chunk ''late'') = initial_world"
  by (simp add: end_session_def finalize_session_def transcriber_finalize_session_def
      mark_session_ended_def broadcast_def get_session_metadata_def eval_defs)

section \<open>The buffer holds only chunks after the expected one\<close>

text \<open>\<open>pending_above\<close>: every key of the session's buffer is above \<open>expected_seq\<close> and
  every stored path string is non-empty. \<open>pending_from\<close> allows the key \<open>expected_seq\<close>
  itself: the state in which the loop over the buffered chunks starts.\<close>

definition pending_above :: "'r world \<Rightarrow> string \<Rightarrow> bool" where
  "pending_above w sid =
     (\<forall>(k, s) \<in> set (buffered_of w sid). get_expected_seq w sid < k \<and> s \<noteq> [])"

definition pending_from :: "'r world \<Rightarrow> string \<Rightarrow> bool" where
  "pending_from w sid =
     (\<forall>(k, s) \<in> set (buffered_of w sid). get_expected_seq w sid \<le> k \<and> s \<noteq> [])"

lemma set_update_subset: "set (AList.update k v al) \<subseteq> insert (k, v) (set al)"
  by (induction al) auto

lemma set_delete: "set (AList.delete k al) = {x \<in> set al. fst x \<noteq> k}"
  by (auto simp: AList.delete_eq)

lemma get_expected_seq_cong:
  "sessions w' = sessions w \<Longrightarrow> get_expected_seq w' sid = get_expected_seq w sid"
  by (simp add: get_expected_seq_def)

lemma get_expected_seq_update_transcript [simp]:
  "get_expected_seq (update_transcript w sid t a) sid' = get_expected_seq w sid'"
  by (simp add: get_expected_seq_def update_transcript_def Let_def split: option.splits)

lemma get_expected_seq_update_summary [simp]:
  "get_expected_seq (update_summary E w sid t) sid' = get_expected_seq w sid'"
  by (simp add: get_expected_seq_def update_summary_def split: option.splits)

lemma get_expected_seq_generate [simp]:
  "get_expected_seq (generate_and_broadcast_summary E w sid) sid' = get_expected_seq w sid'"
  by (simp add: generate_and_broadcast_summary_def summarize_def broadcast_summary_def Let_def
      get_expected_seq_cong [of "broadcast _ _ _"] get_expected_seq_cong [of "_\<lparr>summarize_log := _\<rparr>"])

lemma run_stages_sequencing:
  "buffered_of (run_stages E w sid f) sid' = buffered_of w sid'"
  "get_expected_seq (run_stages E w sid f) sid' = get_expected_seq w sid'"
proof -
  obtain tx y where t: "transcribe_chunk E w sid f = (tx, y)"
    by (cases "transcribe_chunk E w sid f")
  have y: "sessions y = sessions w"
    using sessions_transcribe_chunk [of E w sid f] t by simp
  have "buffered_of (run_stages E w sid f) sid' = buffered_of w sid'
      \<and> get_expected_seq (run_stages E w sid f) sid' = get_expected_seq w sid'"
  proof (cases tx)
    case None
    with t y show ?thesis
      by (simp add: run_stages_def buffered_of_def get_expected_seq_def)
  next
    case (Some u)
    let ?w4 = "broadcast_transcript_update E (update_transcript y sid u True) sid u"
    obtain b w5 where d: "should_generate_summary E ?w4 sid SUMMARY_WORD_THRESHOLD
        SUMMARY_TIME_INTERVAL = (b, w5)"
      by (cases "should_generate_summary E ?w4 sid SUMMARY_WORD_THRESHOLD SUMMARY_TIME_INTERVAL")
    have w5: "sessions w5 = sessions ?w4"
      using sessions_should_generate_summary [of E ?w4 sid SUMMARY_WORD_THRESHOLD
          SUMMARY_TIME_INTERVAL] d by simp
    have w4: "sessions ?w4 = sessions (update_transcript y sid u True)"
      by (simp add: broadcast_transcript_update_def)
    have "buffered_of w5 sid' = buffered_of w sid'"
      using y by (simp add: buffered_of_cong [OF w5] buffered_of_cong [OF w4]
          buffered_of_cong [of y w])
    moreover have "get_expected_seq w5 sid' = get_expected_seq w sid'"
      using y by (simp add: get_expected_seq_cong [OF w5] get_expected_seq_cong [OF w4]
          get_expected_seq_cong [of y w])
    ultimately show ?thesis
      using t Some d by (simp add: run_stages_def)
  qed
  then show "buffered_of (run_stages E w sid f) sid' = buffered_of w sid'"
    and "get_expected_seq (run_stages E w sid f) sid' = get_expected_seq w sid'"
    by simp_all
qed

lemma get_expected_seq_increment:
  "get_expected_seq (increment_expected_seq w sid) sid
     = (if sessions w sid = None then 0 else get_expected_seq w sid + 1)"
  by (simp add: get_expected_seq_def increment_expected_seq_def split: option.splits)

lemma buffered_of_unknown: "sessions w sid = None \<Longrightarrow> buffered_of w sid = []"
  by (simp add: buffered_of_def)

lemma pending_above_from: "pending_above w sid \<Longrightarrow> pending_from w sid"
  by (fastforce simp: pending_above_def pending_from_def)

lemma pending_buffer:
  assumes "pending_above w sid" and "get_expected_seq w sid < seq"
  shows "pending_above (buffer_future_chunk w sid seq p) sid"
proof (cases "sessions w sid")
  case None
  with assms show ?thesis by (simp add: buffer_future_chunk_def)
next
  case (Some s)
  have "set (AList.update seq (str_of p) (buffered_chunks s))
          \<subseteq> insert (seq, str_of p) (set (buffered_chunks s))"
    by (rule set_update_subset)
  moreover have "str_of p \<noteq> []" by (cases p) simp
  ultimately show ?thesis
    using assms Some
    by (fastforce simp: pending_above_def buffered_of_def buffer_future_chunk_def
        get_expected_seq_def)
qed

lemma pending_consumed:
  assumes "pending_above w sid"
  shows "pending_from (increment_expected_seq (run_stages E w sid f) sid) sid"
proof (cases "sessions (run_stages E w sid f) sid")
  case None
  then show ?thesis
    by (simp add: pending_from_def buffered_of_unknown increment_expected_seq_def)
next
  case (Some s)
  with assms show ?thesis
    by (fastforce simp: pending_above_def pending_from_def run_stages_sequencing
        get_expected_seq_increment)
qed

lemma pending_not_buffered:
  assumes "pending_from w sid" and "get_buffered_chunk w sid (get_expected_seq w sid) = None"
  shows "pending_above w sid"
proof -
  have "k \<noteq> get_expected_seq w sid" if "(k, s) \<in> set (buffered_of w sid)" for k s
  proof
    assume k: "k = get_expected_seq w sid"
    from that obtain v where v: "map_of (buffered_of w sid) k = Some v"
      by (metis weak_map_of_SomeI)
    then have "(k, v) \<in> set (buffered_of w sid)" by (rule map_of_SomeD)
    with assms(1) have "v \<noteq> []" by (auto simp: pending_from_def)
    with v k assms(2) show False
      by (cases v) (auto simp: get_buffered_chunk_def buffered_of_def split: option.splits)
  qed
  with assms(1) show ?thesis
    by (fastforce simp: pending_above_def pending_from_def)
qed

lemma pending_removed:
  assumes "pending_from w sid"
  shows "pending_above (remove_buffered_chunk w sid (get_expected_seq w sid)) sid"
proof -
  have "set (buffered_of (remove_buffered_chunk w sid k) sid)
          = {x \<in> set (buffered_of w sid). fst x \<noteq> k}" for k
    by (auto simp: buffered_of_def remove_buffered_chunk_def set_delete split: option.splits)
  with assms show ?thesis
    by (fastforce simp: pending_above_def pending_from_def)
qed

lemma pending_process:
  shows "pending_above w sid \<Longrightarrow> pending_above (process_chunk E w sid seq p) sid"
    and "pending_from w sid \<Longrightarrow> pending_above (process_buffered_chunks E w sid) sid"
proof (induction E w sid seq p and E w sid rule: process_chunk_process_buffered_chunks.induct)
  case (1 E w sid seq chunk_path)
  consider "seq < get_expected_seq w sid" | "get_expected_seq w sid < seq"
    | "seq = get_expected_seq w sid" by linarith
  then show ?case
  proof cases
    case 1
    with "1.prems" show ?thesis by (simp add: process_chunk_stale)
  next
    case 2
    with "1.prems" show ?thesis by (simp add: process_chunk_future pending_buffer)
  next
    case 3
    show ?thesis
    proof (cases "convert_to_wav E sid seq chunk_path")
      case None
      with 3 "1.prems" show ?thesis by (simp add: process_chunk_convert_fails)
    next
      case (Some f)
      obtain tx y where t: "transcribe_chunk E w sid f = (tx, y)"
        by (cases "transcribe_chunk E w sid f")
      have "pending_above
              (process_buffered_chunks E (increment_expected_seq (run_stages E w sid f) sid) sid) sid"
        using "1.IH" [OF refl _ _ _ _ refl, of f tx y] 3 Some
          pending_consumed [OF "1.prems", of E f] t
        by (simp add: run_stages_def)
      with 3 Some show ?thesis by (simp add: process_chunk_expected)
    qed
  qed
next
  case (2 E w sid)
  show ?case
  proof (cases "get_buffered_chunk w sid (get_expected_seq w sid)")
    case None
    with "2.prems" show ?thesis
      by (simp add: process_buffered_chunks_done pending_not_buffered)
  next
    case (Some p)
    have "pending_above (process_chunk E (remove_buffered_chunk w sid (get_expected_seq w sid))
              sid (get_expected_seq w sid) p) sid"
      using "2.IH"(1) [OF refl, of p] Some pending_removed [OF "2.prems"] by simp
    then show ?thesis
      using "2.IH"(2) [OF refl, of p] Some
      by (simp add: process_buffered_chunks_next pending_above_from)
  qed
qed

lemma sessions_run_stages_other:
  assumes "sid' \<noteq> sid"
  shows "sessions (run_stages E w sid f) sid' = sessions w sid'"
proof -
  obtain tx y where t: "transcribe_chunk E w sid f = (tx, y)"
    by (cases "transcribe_chunk E w sid f")
  have y: "sessions y = sessions w"
    using sessions_transcribe_chunk [of E w sid f] t by simp
  have ut: "sessions (update_transcript v sid u a) sid' = sessions v sid'" for v :: "'a world" and u a
    using assms by (simp add: update_transcript_def Let_def split: option.splits)
  have us: "sessions (update_summary E v sid u) sid' = sessions v sid'" for v :: "'a world" and u
    using assms by (simp add: update_summary_def split: option.splits)
  have gen: "sessions (generate_and_broadcast_summary E v sid) sid' = sessions v sid'"
    for v :: "'a world"
    by (simp add: generate_and_broadcast_summary_def summarize_def broadcast_summary_def Let_def us)
  show ?thesis
  proof (cases tx)
    case None
    with t y show ?thesis by (simp add: run_stages_def)
  next
    case (Some u)
    let ?w4 = "broadcast_transcript_update E (update_transcript y sid u True) sid u"
    obtain b w5 where d: "should_generate_summary E ?w4 sid SUMMARY_WORD_THRESHOLD
        SUMMARY_TIME_INTERVAL = (b, w5)"
      by (cases "should_generate_summary E ?w4 sid SUMMARY_WORD_THRESHOLD SUMMARY_TIME_INTERVAL")
    have w5: "sessions w5 = sessions ?w4"
      using sessions_should_generate_summary [of E ?w4 sid SUMMARY_WORD_THRESHOLD
          SUMMARY_TIME_INTERVAL] d by simp
    have "sessions w5 sid' = sessions w sid'"
      using y by (simp add: w5 broadcast_transcript_update_def ut)
    with t Some d show ?thesis by (simp add: run_stages_def gen)
  qed
qed

lemma sessions_process_chunk_other:
  assumes "sid' \<noteq> sid"
  shows "sessions (process_chunk E w sid seq p) sid' = sessions w sid'"
  by (rule process_chunk_preserves(1) [where I = "\<lambda>v. sessions v sid' = sessions w sid'",
        OF _ _ _ refl])
    (simp_all add: assms buffer_future_chunk_def increment_expected_seq_def
      remove_buffered_chunk_def sessions_run_stages_other split: option.splits)

lemma pending_above_cong:
  "sessions w' sid = sessions w sid \<Longrightarrow> pending_above w' sid = pending_above w sid"
  by (simp add: pending_above_def buffered_of_def get_expected_seq_def)

lemma pending_process_chunk:
  assumes "pending_above w sid'"
  shows "pending_above (process_chunk E w sid seq p) sid'"
proof (cases "sid' = sid")
  case True
  with assms show ?thesis by (simp add: pending_process(1))
next
  case False
  with assms show ?thesis
    by (simp add: pending_above_cong [OF sessions_process_chunk_other])
qed

lemma sequencing_mark_ended [simp]:
  "buffered_of (mark_session_ended E w sid) sid' = buffered_of w sid'"
  "get_expected_seq (mark_session_ended E w sid) sid' = get_expected_seq w sid'"
  by (simp_all add: buffered_of_def get_expected_seq_def mark_session_ended_def
      split: option.splits)

lemma sessions_transcriber_finalize [simp]:
  "sessions (snd (transcriber_finalize_session E w sid)) = sessions w"
  by (simp add: transcriber_finalize_session_def Let_def split: option.splits)

lemma sequencing_flush [simp]:
  "buffered_of (flush_recognizer E w sid) sid' = buffered_of w sid'"
  "get_expected_seq (flush_recognizer E w sid) sid' = get_expected_seq w sid'"
proof -
  obtain ft w1 where f: "transcriber_finalize_session E w sid = (ft, w1)"
    by (cases "transcriber_finalize_session E w sid")
  have w1: "sessions w1 = sessions w"
    using sessions_transcriber_finalize [of E w sid] f by simp
  show "buffered_of (flush_recognizer E w sid) sid' = buffered_of w sid'"
    using f by (cases ft) (simp_all add: flush_recognizer_def buffered_of_cong [OF w1])
  show "get_expected_seq (flush_recognizer E w sid) sid' = get_expected_seq w sid'"
    using f by (cases ft) (simp_all add: flush_recognizer_def get_expected_seq_cong [OF w1])
qed

lemma sequencing_broadcast [simp]:
  "buffered_of (broadcast E w m) sid = buffered_of w sid"
  "get_expected_seq (broadcast E w m) sid = get_expected_seq w sid"
  by (simp_all add: buffered_of_def get_expected_seq_def)

lemma sequencing_log [simp]:
  "buffered_of (w\<lparr>summarize_log := l\<rparr>) sid = buffered_of w sid"
  "get_expected_seq (w\<lparr>summarize_log := l\<rparr>) sid = get_expected_seq w sid"
  by (simp_all add: buffered_of_def get_expected_seq_def)

lemma pending_finalize:
  assumes "pending_above w sid'"
  shows "pending_above (finalize_session E w sid) sid'"
proof -
  have "buffered_of (finalize_session E w sid) sid' = buffered_of w sid'
      \<and> get_expected_seq (finalize_session E w sid) sid' = get_expected_seq w sid'"
    by (simp add: finalize_session_unfold Let_def broadcast_summary_def)
  with assms show ?thesis by (simp add: pending_above_def)
qed

lemma sessions_connect [simp]: "sessions (connect w c) = sessions w"
  by (simp add: connect_def)

lemma pending_apply_operation:
  assumes "\<forall>sid. pending_above w sid"
  shows "pending_above (apply_operation E w x) sid"
proof (cases x)
  case (CreateSession a)
  with assms [rule_format, of sid] show ?thesis
    by (simp add: pending_above_def buffered_of_def get_expected_seq_def create_session_def
        Let_def)
next
  case (ProcessChunk a k p)
  with assms show ?thesis by (simp add: pending_process_chunk)
next
  case (FinalizeSession a)
  with assms show ?thesis by (simp add: pending_finalize)
next
  case (CleanupSession a)
  with assms [rule_format, of sid] show ?thesis
    by (auto simp: pending_above_def buffered_of_def get_expected_seq_def cleanup_session_def
        split: option.splits)
next
  case (Connect c)
  with assms [rule_format, of sid] show ?thesis
    by (simp add: pending_above_cong [of "connect w c" sid w])
next
  case (Disconnect c)
  with assms [rule_format, of sid] show ?thesis
    by (simp add: pending_above_cong [of "disconnect w c" sid w])
qed

lemma pending_run:
  assumes "\<forall>sid. pending_above w sid"
  shows "pending_above (foldl (apply_operation E) w ops) sid"
  using assms
proof (induction ops arbitrary: w)
  case Nil
  then show ?case by simp
next
  case (Cons x ops)
  have "\<forall>sid. pending_above (apply_operation E w x) sid"
    using pending_apply_operation [OF Cons.prems] by simp
  from Cons.IH [OF this] show ?case by simp
qed

text \<open>C7: in every state a process reaches from its start by any sequence of operations,
  every key of every session's buffer is above that session's \<open>expected_seq\<close>. The same
  holds whenever the loop over the buffered chunks returns, if it was started with no key
  below \<open>expected_seq\<close>.\<close>

theorem pending_keys_above_expected:
  "(\<forall>k \<in> fst ` set (buffered_of (run E ops) sid). get_expected_seq (run E ops) sid < k)
   \<and> (pending_from w sid \<longrightarrow>
        (\<forall>k \<in> fst ` set (buffered_of (process_buffered_chunks E w sid) sid).
            get_expected_seq (process_buffered_chunks E w sid) sid < k))"
proof -
  have "pending_above (initial_world :: 'a world) s" for s
    by (simp add: pending_above_def buffered_of_def initial_world_def)
  then have "pending_above (run E ops) sid"
    unfolding run_def by (intro pending_run) simp
  moreover have "pending_above (process_buffered_chunks E w sid) sid" if "pending_from w sid"
    using that by (rule pending_process(2))
  ultimately show ?thesis
    by (fastforce simp: pending_above_def)
qed

text \<open>Chunks 2, 3 and 0 of a new session: \<open>expected_seq\<close> is 1 and the buffer holds 2
  and 3.\<close>

theorem pending_keys_above_expected_witness:
  "get_expected_seq (run env0 [CreateSession ''S1'', ProcessChunk ''S1'' 2 (chunk ''two''),
       ProcessChunk ''S1'' 3 (chunk ''three''), ProcessChunk ''S1'' 0 (chunk ''zero'')]) ''S1'' = 1
   \<and> buffered_of (run env0 [CreateSession ''S1'', ProcessChunk ''S1'' 2 (chunk ''two''),
       ProcessChunk ''S1'' 3 (chunk ''three''), ProcessChunk ''S1'' 0 (chunk ''zero'')]) ''S1''
     = [(2, ''two''), (3, ''three'')]
   \<and> pending_from (increment_expected_seq (world_text [] [] []) ''S1'') ''S1''"
  using pending_keys_above_expected [of env0 "[CreateSession ''S1'',
      ProcessChunk ''S1'' 2 (chunk ''two''), ProcessChunk ''S1'' 3 (chunk ''three''),
      ProcessChunk ''S1'' 0 (chunk ''zero'')]" "''S1''"
      "increment_expected_seq (world_text [] [] []) ''S1''"]
  by (simp add: run_def eval_defs pending_from_def world_text_def session_with_def)

section \<open>Arrival order\<close>

text \<open>\<open>deliver\<close> is a sequence of arrivals for one session: chunk \<open>k\<close> arrives with path
  \<open>cp k\<close>, in the order of the list, and each call of \<open>process_chunk\<close> ends before the next
  begins. \<open>spoken\<close> gives three chunks for the examples.\<close>

definition deliver ::
  "'r env \<Rightarrow> 'r world \<Rightarrow> string \<Rightarrow> (nat \<Rightarrow> path) \<Rightarrow> nat list \<Rightarrow> 'r world" where
  "deliver E w sid cp order = foldl (\<lambda>v k. process_chunk E v sid (int k) (cp k)) w order"

definition spoken :: "nat \<Rightarrow> path" where
  "spoken k = chunk (if k = 0 then ''zero'' else if k = 1 then ''one'' else ''two'')"

text \<open>\<open>with_buffer\<close> replaces the buffer of a session; \<open>consume\<close> is what \<open>process_chunk\<close>
  does to chunk \<open>k\<close> when it is the expected one and its conversion succeeds, up to the
  increment and without the loop over the buffer.\<close>

definition set_buffer ::
  "(string \<rightharpoonup> session) \<Rightarrow> string \<Rightarrow> (int \<times> string) list \<Rightarrow> (string \<rightharpoonup> session)" where
  "set_buffer m sid B = (case m sid of None \<Rightarrow> m | Some s \<Rightarrow> m(sid \<mapsto> s\<lparr>buffered_chunks := B\<rparr>))"

definition with_buffer :: "'r world \<Rightarrow> string \<Rightarrow> (int \<times> string) list \<Rightarrow> 'r world" where
  "with_buffer w sid B = w\<lparr>sessions := set_buffer (sessions w) sid B\<rparr>"

definition consume :: "'r env \<Rightarrow> string \<Rightarrow> (nat \<Rightarrow> path) \<Rightarrow> 'r world \<Rightarrow> nat \<Rightarrow> 'r world" where
  "consume E sid cp w k =
     (case ffmpeg E sid (int k) (cp k) of
        None \<Rightarrow> w
      | Some f \<Rightarrow> increment_expected_seq (run_stages E w sid f) sid)"

subsection \<open>The stages do not read or write the buffer\<close>

lemma buffered_chunks_update_last:
  "transcript_update f (buffered_chunks_update g s) = buffered_chunks_update g (transcript_update f s)"
  "word_count_update f1 (buffered_chunks_update g s) = buffered_chunks_update g (word_count_update f1 s)"
  "summary_update f (buffered_chunks_update g s) = buffered_chunks_update g (summary_update f s)"
  "last_summary_time_update f2 (buffered_chunks_update g s)
     = buffered_chunks_update g (last_summary_time_update f2 s)"
  "expected_seq_update f3 (buffered_chunks_update g s)
     = buffered_chunks_update g (expected_seq_update f3 s)"
  by (cases s; simp)+

lemma sessions_update_last:
  "clock_reads_update f (sessions_update g w) = sessions_update g (clock_reads_update f w)"
  "delivered_update f1 (sessions_update g w) = sessions_update g (delivered_update f1 w)"
  "active_connections_update f2 (sessions_update g w)
     = sessions_update g (active_connections_update f2 w)"
  "recognizers_update f3 (sessions_update g w) = sessions_update g (recognizers_update f3 w)"
  "summarize_log_update f4 (sessions_update g w) = sessions_update g (summarize_log_update f4 w)"
  by (cases w; simp)+

lemma with_buffer_fields [simp]:
  "recognizers (with_buffer w sid B) = recognizers w"
  "active_connections (with_buffer w sid B) = active_connections w"
  "delivered (with_buffer w sid B) = delivered w"
  "summarize_log (with_buffer w sid B) = summarize_log w"
  "clock_reads (with_buffer w sid B) = clock_reads w"
  by (simp_all add: with_buffer_def)

lemma foldl_disconnect_sessions:
  "foldl disconnect (w\<lparr>sessions := X\<rparr>) cs = (foldl disconnect w cs)\<lparr>sessions := X\<rparr>"
  by (induction cs arbitrary: w) (simp_all add: disconnect_def sessions_update_last)

lemma broadcast_sessions:
  "broadcast E (w\<lparr>sessions := X\<rparr>) m = (broadcast E w m)\<lparr>sessions := X\<rparr>"
  by (simp add: broadcast_def foldl_disconnect_sessions [symmetric] sessions_update_last
      split: prod.splits)

lemma with_buffer_broadcast:
  "broadcast E (with_buffer w sid B) m = with_buffer (broadcast E w m) sid B"
  by (simp add: with_buffer_def broadcast_sessions)

lemma get_transcript_with_buffer [simp]:
  "get_transcript (with_buffer w sid B) sid' = get_transcript w sid'"
  by (simp add: get_transcript_def with_buffer_def set_buffer_def split: option.splits)

lemma get_expected_seq_with_buffer [simp]:
  "get_expected_seq (with_buffer w sid B) sid' = get_expected_seq w sid'"
  by (simp add: get_expected_seq_def with_buffer_def set_buffer_def split: option.splits)

lemma with_buffer_transcribe:
  "transcribe_chunk E (with_buffer w sid B) sid' f
     = (fst (transcribe_chunk E w sid' f), with_buffer (snd (transcribe_chunk E w sid' f)) sid B)"
  by (simp add: transcribe_chunk_def get_recognizer_def with_buffer_def Let_def
      sessions_update_last split: option.splits wav.splits prod.splits)

lemma with_buffer_update_transcript:
  "update_transcript (with_buffer w sid B) sid t a = with_buffer (update_transcript w sid t a) sid B"
  by (auto simp: update_transcript_def with_buffer_def set_buffer_def Let_def
      buffered_chunks_update_last split: option.splits)

lemma with_buffer_update_summary:
  "update_summary E (with_buffer w sid B) sid t = with_buffer (update_summary E w sid t) sid B"
  by (auto simp: update_summary_def with_buffer_def set_buffer_def tick_def now_def
      buffered_chunks_update_last sessions_update_last split: option.splits)

lemma with_buffer_increment:
  "increment_expected_seq (with_buffer w sid B) sid = with_buffer (increment_expected_seq w sid) sid B"
  by (auto simp: increment_expected_seq_def with_buffer_def set_buffer_def
      buffered_chunks_update_last split: option.splits)

lemma with_buffer_should_generate:
  "should_generate_summary E (with_buffer w sid B) sid W T
     = (fst (should_generate_summary E w sid W T),
        with_buffer (snd (should_generate_summary E w sid W T)) sid B)"
  by (auto simp: should_generate_summary_def with_buffer_def set_buffer_def tick_def now_def
      Let_def sessions_update_last split: option.splits)

lemma with_buffer_log:
  "(with_buffer w sid B)\<lparr>summarize_log := l\<rparr> = with_buffer (w\<lparr>summarize_log := l\<rparr>) sid B"
  by (simp add: with_buffer_def sessions_update_last)

lemma with_buffer_generate:
  "generate_and_broadcast_summary E (with_buffer w sid B) sid
     = with_buffer (generate_and_broadcast_summary E w sid) sid B"
  by (simp add: generate_and_broadcast_summary_def summarize_def broadcast_summary_def Let_def
      with_buffer_broadcast with_buffer_update_summary with_buffer_log)

lemma with_buffer_run_stages:
  "run_stages E (with_buffer w sid B) sid f = with_buffer (run_stages E w sid f) sid B"
  by (simp add: run_stages_def with_buffer_transcribe with_buffer_update_transcript
      broadcast_transcript_update_def with_buffer_broadcast with_buffer_should_generate
      with_buffer_generate Let_def split: prod.splits option.splits)

lemma with_buffer_consume:
  "consume E sid cp (with_buffer w sid B) k = with_buffer (consume E sid cp w k) sid B"
  by (simp add: consume_def with_buffer_run_stages with_buffer_increment split: option.splits)

lemma with_buffer_twice [simp]: "with_buffer (with_buffer w sid B) sid B' = with_buffer w sid B'"
  by (cases w) (auto simp: with_buffer_def set_buffer_def split: option.splits)

lemma with_buffer_same:
  "sessions w sid = Some s \<Longrightarrow> buffered_chunks s = B \<Longrightarrow> with_buffer w sid B = w"
  by (cases w) (auto simp: with_buffer_def set_buffer_def)

lemma buffered_of_with_buffer:
  "sessions w sid \<noteq> None \<Longrightarrow> buffered_of (with_buffer w sid B) sid = B"
  by (auto simp: buffered_of_def with_buffer_def set_buffer_def)

lemma sessions_with_buffer_None [simp]:
  "(sessions (with_buffer w sid B) sid' = None) = (sessions w sid' = None)"
  by (auto simp: with_buffer_def set_buffer_def split: option.splits)

lemma get_buffered_with_buffer:
  "sessions w sid \<noteq> None \<Longrightarrow>
   get_buffered_chunk (with_buffer w sid B) sid k
     = (case map_of B k of None \<Rightarrow> None | Some [] \<Rightarrow> None | Some (c # cs) \<Rightarrow> Some (Path c cs))"
  by (auto simp: get_buffered_chunk_def with_buffer_def set_buffer_def)

lemma remove_with_buffer:
  "remove_buffered_chunk (with_buffer w sid B) sid k = with_buffer w sid (AList.delete k B)"
proof (cases "sessions w sid")
  case None
  then show ?thesis by (simp add: remove_buffered_chunk_def with_buffer_def set_buffer_def)
next
  case (Some s)
  have b: "buffered_of (with_buffer w sid B) sid = B"
    using Some by (simp add: buffered_of_with_buffer)
  show ?thesis
  proof (cases "k \<in> fst ` set B")
    case True
    with Some show ?thesis
      by (cases w) (auto simp: remove_buffered_chunk_def with_buffer_def set_buffer_def)
  next
    case False
    with Some show ?thesis
      by (cases w) (auto simp: remove_buffered_chunk_def with_buffer_def set_buffer_def)
  qed
qed

lemma buffer_with_buffer:
  "buffer_future_chunk (with_buffer w sid B) sid k p
     = with_buffer w sid (AList.update k (str_of p) B)"
  by (cases w) (auto simp: buffer_future_chunk_def with_buffer_def set_buffer_def
      split: option.splits)

lemma path_of_str: "(case str_of p of [] \<Rightarrow> None | c # cs \<Rightarrow> Some (Path c cs)) = Some p"
  by (cases p) simp

lemma session_exists_run_stages:
  "(sessions (run_stages E w sid f) sid' = None) = (sessions w sid' = None)"
proof -
  have ut: "(sessions (update_transcript v sid u a) sid' = None) = (sessions v sid' = None)"
    for v :: "'a world" and u a
    by (simp add: update_transcript_def Let_def split: option.splits)
  have us: "(sessions (update_summary E v sid u) sid' = None) = (sessions v sid' = None)"
    for v :: "'a world" and u
    by (simp add: update_summary_def split: option.splits)
  have gen: "(sessions (generate_and_broadcast_summary E v sid) sid' = None)
      = (sessions v sid' = None)" for v :: "'a world"
    by (simp add: generate_and_broadcast_summary_def summarize_def broadcast_summary_def Let_def us)
  obtain tx y where t: "transcribe_chunk E w sid f = (tx, y)"
    by (cases "transcribe_chunk E w sid f")
  have y: "sessions y = sessions w"
    using sessions_transcribe_chunk [of E w sid f] t by simp
  show ?thesis
  proof (cases tx)
    case None
    with t y show ?thesis by (simp add: run_stages_def)
  next
    case (Some u)
    let ?w4 = "broadcast_transcript_update E (update_transcript y sid u True) sid u"
    obtain b w5 where d: "should_generate_summary E ?w4 sid SUMMARY_WORD_THRESHOLD
        SUMMARY_TIME_INTERVAL = (b, w5)"
      by (cases "should_generate_summary E ?w4 sid SUMMARY_WORD_THRESHOLD SUMMARY_TIME_INTERVAL")
    have w5: "sessions w5 = sessions ?w4"
      using sessions_should_generate_summary [of E ?w4 sid SUMMARY_WORD_THRESHOLD
          SUMMARY_TIME_INTERVAL] d by simp
    have "(sessions w5 sid' = None) = (sessions w sid' = None)"
      using y by (simp add: w5 broadcast_transcript_update_def ut)
    with t Some d show ?thesis by (simp add: run_stages_def gen)
  qed
qed

lemma consume_step:
  assumes "ffmpeg E sid (int k) (cp k) \<noteq> None" and "sessions w sid \<noteq> None"
  shows "get_expected_seq (consume E sid cp w k) sid = get_expected_seq w sid + 1"
    and "sessions (consume E sid cp w k) sid \<noteq> None"
proof -
  from assms(1) obtain f where f: "ffmpeg E sid (int k) (cp k) = Some f" by auto
  have ex: "sessions (run_stages E w sid f) sid \<noteq> None"
    using assms(2) by (simp add: session_exists_run_stages)
  then show "get_expected_seq (consume E sid cp w k) sid = get_expected_seq w sid + 1"
    using f by (auto simp: consume_def get_expected_seq_increment run_stages_sequencing)
  from ex show "sessions (consume E sid cp w k) sid \<noteq> None"
    using f by (auto simp: consume_def increment_expected_seq_def)
qed

lemma consume_run:
  assumes "\<forall>j. e \<le> j \<and> j < e' \<longrightarrow> ffmpeg E sid (int j) (cp j) \<noteq> None"
    and "sessions w sid \<noteq> None" and "get_expected_seq w sid = int e" and "e \<le> e'"
  shows "get_expected_seq (foldl (consume E sid cp) w [e..<e']) sid = int e'
       \<and> sessions (foldl (consume E sid cp) w [e..<e']) sid \<noteq> None"
  using assms(1,4)
proof (induction e')
  case 0
  with assms show ?case by simp
next
  case (Suc n)
  show ?case
  proof (cases "e = Suc n")
    case True
    with assms show ?thesis by simp
  next
    case False
    with Suc.prems have le: "e \<le> n" by simp
    have ih: "get_expected_seq (foldl (consume E sid cp) w [e..<n]) sid = int n
       \<and> sessions (foldl (consume E sid cp) w [e..<n]) sid \<noteq> None"
      using Suc.IH Suc.prems le by simp
    have g: "ffmpeg E sid (int n) (cp n) \<noteq> None"
      using Suc.prems le by simp
    from consume_step [of E sid n cp "foldl (consume E sid cp) w [e..<n]"] g ih le
    show ?thesis by simp
  qed
qed

subsection \<open>The loop consumes the buffered chunks in sequence\<close>

lemma drain_in_order:
  assumes good: "\<forall>j\<le>N. ffmpeg E sid (int j) (cp j) \<noteq> None"
  shows "(\<forall>(k, s) \<in> set B. \<exists>j\<le>N. k = int j \<and> s = str_of (cp j)) \<Longrightarrow>
         sessions W sid \<noteq> None \<Longrightarrow> get_expected_seq W sid = int e \<Longrightarrow>
         \<exists>e' B'. process_buffered_chunks E (with_buffer W sid B) sid
                    = with_buffer (foldl (consume E sid cp) W [e..<e']) sid B'
                \<and> e \<le> e' \<and> (\<forall>j. e \<le> j \<and> j < e' \<longrightarrow> int j \<in> fst ` set B)
                \<and> int e' \<notin> fst ` set B
                \<and> set B' = {x \<in> set B. fst x \<notin> int ` {e..<e'}}"
proof (induction "length B" arbitrary: B W e rule: less_induct)
  case less
  note ent = less.prems(1) and ex = less.prems(2) and e = less.prems(3)
  let ?w = "with_buffer W sid B"
  have exp: "get_expected_seq ?w sid = int e" using e by simp
  show ?case
  proof (cases "int e \<in> fst ` set B")
    case False
    then have "map_of B (int e) = None" by (simp add: map_of_eq_None_iff)
    then have "get_buffered_chunk ?w sid (get_expected_seq ?w sid) = None"
      using ex by (simp add: get_buffered_with_buffer exp del: get_expected_seq_with_buffer)
    then have "process_buffered_chunks E ?w sid = ?w"
      by (rule process_buffered_chunks_done)
    with False show ?thesis
      by (intro exI [of _ e] exI [of _ B]) auto
  next
    case True
    then obtain s0 where s0: "map_of B (int e) = Some s0"
      by (metis weak_map_of_SomeI imageE prod.collapse)
    then have "(int e, s0) \<in> set B" by (rule map_of_SomeD)
    with ent have s0_eq: "s0 = str_of (cp e)" and eN: "e \<le> N" by auto
    let ?B1 = "AList.delete (int e) B"
    let ?W1 = "consume E sid cp W e"
    from eN good obtain f where f: "ffmpeg E sid (int e) (cp e) = Some f" by auto
    have got: "get_buffered_chunk ?w sid (get_expected_seq ?w sid) = Some (cp e)"
      using ex s0 s0_eq path_of_str [of "cp e"]
      by (simp add: get_buffered_with_buffer exp del: get_expected_seq_with_buffer)
    have step1: "process_buffered_chunks E ?w sid
        = process_buffered_chunks E
            (process_chunk E (with_buffer W sid ?B1) sid (int e) (cp e)) sid"
      using process_buffered_chunks_next [OF got] by (simp add: exp remove_with_buffer e)
    have step2: "process_chunk E (with_buffer W sid ?B1) sid (int e) (cp e)
        = process_buffered_chunks E (with_buffer ?W1 sid ?B1) sid"
      using process_chunk_expected [of "int e" "with_buffer W sid ?B1" sid E "cp e" f] f e
      by (simp add: convert_to_wav_def consume_def with_buffer_run_stages with_buffer_increment)
    have len: "length ?B1 < length B"
      using True by (induction B) (auto simp: length_delete_le le_imp_less_Suc)
    have ent1: "\<forall>(k, s) \<in> set ?B1. \<exists>j\<le>N. k = int j \<and> s = str_of (cp j)"
      using ent by (auto simp: set_delete)
    have W1: "sessions ?W1 sid \<noteq> None" "get_expected_seq ?W1 sid = int (Suc e)"
      using consume_step [of E sid e cp W] f ex e by simp_all
    from less.hyps [OF len ent1 W1]
    obtain e' B' where
      r: "process_buffered_chunks E (with_buffer ?W1 sid ?B1) sid
            = with_buffer (foldl (consume E sid cp) ?W1 [Suc e..<e']) sid B'"
      and le: "Suc e \<le> e'"
      and run: "\<forall>j. Suc e \<le> j \<and> j < e' \<longrightarrow> int j \<in> fst ` set ?B1"
      and stop: "int e' \<notin> fst ` set ?B1"
      and rest: "set B' = {x \<in> set ?B1. fst x \<notin> int ` {Suc e..<e'}}"
      by blast
    let ?W2 = "foldl (consume E sid cp) W [e..<e']"
    have W2: "?W2 = foldl (consume E sid cp) ?W1 [Suc e..<e']"
      using le by (simp add: upt_conv_Cons)
    have keys1: "fst ` set ?B1 = fst ` set B - {int e}"
      by (auto simp: set_delete)
    have good2: "\<forall>j. e \<le> j \<and> j < e' \<longrightarrow> ffmpeg E sid (int j) (cp j) \<noteq> None"
    proof (intro allI impI)
      fix j assume j: "e \<le> j \<and> j < e'"
      show "ffmpeg E sid (int j) (cp j) \<noteq> None"
      proof (cases "j = e")
        case True
        with f show ?thesis by simp
      next
        case False
        with j run have "int j \<in> fst ` set ?B1" by simp
        then obtain s where "(int j, s) \<in> set ?B1" by auto
        with ent1 have "j \<le> N" by auto
        with good show ?thesis by simp
      qed
    qed
    have W2e: "get_expected_seq ?W2 sid = int e'" "sessions ?W2 sid \<noteq> None"
      using consume_run [OF good2 ex e] le by simp_all
    have "int e' \<notin> fst ` set B'"
      using stop rest by auto
    then have "map_of B' (int e') = None" by (simp add: map_of_eq_None_iff)
    then have "get_buffered_chunk (with_buffer ?W2 sid B') sid
        (get_expected_seq (with_buffer ?W2 sid B') sid) = None"
      using W2e by (simp add: get_buffered_with_buffer)
    then have "process_buffered_chunks E (with_buffer ?W2 sid B') sid = with_buffer ?W2 sid B'"
      by (rule process_buffered_chunks_done)
    with step1 step2 r W2
    have res: "process_buffered_chunks E ?w sid = with_buffer ?W2 sid B'" by simp
    have "e \<le> e'" using le by simp
    moreover have "\<forall>j. e \<le> j \<and> j < e' \<longrightarrow> int j \<in> fst ` set B"
      using run True keys1 by (metis DiffD1 Suc_leI le_neq_implies_less)
    moreover have "int e' \<notin> fst ` set B"
      using stop keys1 le by auto
    moreover have "set B' = {x \<in> set B. fst x \<notin> int ` {e..<e'}}"
    proof -
      have "int ` {e..<e'} = insert (int e) (int ` {Suc e..<e'})"
        using le by (auto simp: image_iff)
      with rest show ?thesis by (auto simp: set_delete)
    qed
    ultimately show ?thesis
      using res by blast
  qed
qed

subsection \<open>The state after any prefix of the arrivals\<close>

lemma deliver_snoc:
  "deliver E w sid cp (order @ [k]) = process_chunk E (deliver E w sid cp order) sid (int k) (cp k)"
  by (simp add: deliver_def)

lemma deliver_invariant:
  assumes good: "\<forall>j\<le>N. ffmpeg E sid (int j) (cp j) \<noteq> None"
    and s: "sessions w sid = Some s" and s0: "expected_seq s = 0" and sb: "buffered_chunks s = []"
  shows "distinct order \<Longrightarrow> set order \<subseteq> {0..N} \<Longrightarrow>
         \<exists>e B. deliver E w sid cp order = with_buffer (foldl (consume E sid cp) w [0..<e]) sid B
              \<and> (\<forall>j<e. j \<in> set order) \<and> e \<notin> set order
              \<and> fst ` set B = int ` {k \<in> set order. e < k}
              \<and> (\<forall>(k, s) \<in> set B. \<exists>j\<le>N. k = int j \<and> s = str_of (cp j))"
proof (induction order rule: rev_induct)
  case Nil
  have "deliver E w sid cp [] = with_buffer (foldl (consume E sid cp) w [0..<0]) sid []"
    using s sb by (simp add: deliver_def with_buffer_same)
  then show ?case by (intro exI [of _ 0] exI [of _ "[]"]) simp
next
  case (snoc k order)
  from snoc.prems have d: "distinct order" and sub: "set order \<subseteq> {0..N}"
    and k: "k \<notin> set order" and kN: "k \<le> N" by auto
  from snoc.IH [OF d sub] obtain e B where
    st: "deliver E w sid cp order = with_buffer (foldl (consume E sid cp) w [0..<e]) sid B"
    and below: "\<forall>j<e. j \<in> set order" and e: "e \<notin> set order"
    and keys: "fst ` set B = int ` {k \<in> set order. e < k}"
    and ent: "\<forall>(k, s) \<in> set B. \<exists>j\<le>N. k = int j \<and> s = str_of (cp j)"
    by blast
  let ?W = "foldl (consume E sid cp) w [0..<e]"
  have eN: "e \<le> Suc N"
  proof (rule ccontr)
    assume "\<not> e \<le> Suc N"
    then have "Suc N < e" by simp
    with below have "Suc N \<in> set order" by simp
    with sub show False by auto
  qed
  have good_e: "\<forall>j. 0 \<le> j \<and> j < e \<longrightarrow> ffmpeg E sid (int j) (cp j) \<noteq> None"
    using good eN by auto
  have We: "get_expected_seq ?W sid = int e" "sessions ?W sid \<noteq> None"
    using consume_run [OF good_e, of w] s s0 by (simp_all add: get_expected_seq_def)
  have ke: "\<not> k < e" using below k by auto
  show ?case
  proof (cases "k = e")
    case False
    with ke have gt: "e < k" by simp
    let ?B' = "AList.update (int k) (str_of (cp k)) B"
    have "deliver E w sid cp (order @ [k]) = with_buffer ?W sid ?B'"
      using gt We by (simp add: deliver_snoc st process_chunk_future buffer_with_buffer)
    moreover have "\<forall>j<e. j \<in> set (order @ [k])" using below by simp
    moreover have "e \<notin> set (order @ [k])" using e False by simp
    moreover have "fst ` set ?B' = int ` {x \<in> set (order @ [k]). e < x}"
      using keys gt by (auto simp: dom_update)
    moreover have "\<forall>(k, s) \<in> set ?B'. \<exists>j\<le>N. k = int j \<and> s = str_of (cp j)"
      using ent kN set_update_subset [of "int k" "str_of (cp k)" B] by auto
    ultimately show ?thesis by blast
  next
    case True
    from kN True good obtain f where f: "ffmpeg E sid (int e) (cp e) = Some f" by auto
    let ?W1 = "consume E sid cp ?W e"
    have W1: "?W1 = foldl (consume E sid cp) w [0..<Suc e]" by simp
    have W1e: "sessions ?W1 sid \<noteq> None" "get_expected_seq ?W1 sid = int (Suc e)"
      using consume_step [of E sid e cp ?W] f We by simp_all
    have "deliver E w sid cp (order @ [k])
        = process_buffered_chunks E (with_buffer ?W1 sid B) sid"
      using process_chunk_expected [of "int e" "with_buffer ?W sid B" sid E "cp e" f] f We True
      by (simp add: deliver_snoc st convert_to_wav_def consume_def with_buffer_run_stages
          with_buffer_increment)
    moreover from drain_in_order [OF good ent W1e]
    obtain e' B' where
      r: "process_buffered_chunks E (with_buffer ?W1 sid B) sid
            = with_buffer (foldl (consume E sid cp) ?W1 [Suc e..<e']) sid B'"
      and le: "Suc e \<le> e'"
      and run: "\<forall>j. Suc e \<le> j \<and> j < e' \<longrightarrow> int j \<in> fst ` set B"
      and stop: "int e' \<notin> fst ` set B"
      and rest: "set B' = {x \<in> set B. fst x \<notin> int ` {Suc e..<e'}}"
      by blast
    moreover have "foldl (consume E sid cp) ?W1 [Suc e..<e'] = foldl (consume E sid cp) w [0..<e']"
    proof -
      have "[0..<e'] = [0..<Suc e] @ [Suc e..<e']"
        using le upt_add_eq_append [of 0 "Suc e" "e' - Suc e"] by simp
      then show ?thesis by (simp only: foldl_append W1)
    qed
    ultimately have res: "deliver E w sid cp (order @ [k])
        = with_buffer (foldl (consume E sid cp) w [0..<e']) sid B'" by simp
    have a: "\<forall>j<e'. j \<in> set (order @ [k])"
    proof (intro allI impI)
      fix j assume j: "j < e'"
      consider "j < e" | "j = e" | "Suc e \<le> j" by linarith
      then show "j \<in> set (order @ [k])"
      proof cases
        case 1 with below show ?thesis by simp
      next
        case 2 with True show ?thesis by simp
      next
        case 3
        with run j have "int j \<in> fst ` set B" by simp
        with keys show ?thesis by auto
      qed
    qed
    have b: "e' \<notin> set (order @ [k])"
    proof
      assume "e' \<in> set (order @ [k])"
      with le True have "e' \<in> set order" by auto
      with le have "int e' \<in> int ` {k \<in> set order. e < k}" by auto
      with keys stop show False by simp
    qed
    have c: "fst ` set B' = int ` {x \<in> set (order @ [k]). e' < x}"
    proof -
      have "fst ` set B' = fst ` set B - int ` {Suc e..<e'}"
        using rest by auto
      also have "\<dots> = int ` {x \<in> set order. e < x} - int ` {Suc e..<e'}"
        by (simp add: keys)
      also have "\<dots> = int ` {x \<in> set order. e' < x}"
        using b le by (auto simp: image_iff) (metis Suc_leI not_less_iff_gr_or_eq)
      also have "\<dots> = int ` {x \<in> set (order @ [k]). e' < x}"
        using True le by auto
      finally show ?thesis .
    qed
    have "\<forall>(k, s) \<in> set B'. \<exists>j\<le>N. k = int j \<and> s = str_of (cp j)"
      using ent rest by auto
    with res a b c show ?thesis by blast
  qed
qed

lemma deliver_all:
  assumes "sessions w sid = Some s" and "expected_seq s = 0" and "buffered_chunks s = []"
    and good: "\<forall>j\<le>N. ffmpeg E sid (int j) (cp j) \<noteq> None"
    and "distinct order" and all: "set order = {0..N}"
  shows "deliver E w sid cp order = with_buffer (foldl (consume E sid cp) w [0..<Suc N]) sid []"
proof -
  from all have "set order \<subseteq> {0..N}" by simp
  from deliver_invariant [OF good assms(1-3) assms(5) this]
  obtain e B where
    st: "deliver E w sid cp order = with_buffer (foldl (consume E sid cp) w [0..<e]) sid B"
    and below: "\<forall>j<e. j \<in> set order" and e: "e \<notin> set order"
    and keys: "fst ` set B = int ` {k \<in> set order. e < k}"
    by blast
  have "e \<le> Suc N"
  proof (rule ccontr)
    assume "\<not> e \<le> Suc N"
    then have "Suc N < e" by simp
    with below have "Suc N \<in> set order" by simp
    with all show False by simp
  qed
  moreover from e all have "N < e" by simp
  ultimately have eq: "e = Suc N" by simp
  with keys all have "fst ` set B = {}" by auto
  then have "B = []" by simp
  with st eq show ?thesis by simp
qed

text \<open>With no bound on the depth of the nested calls: a session starts with
  \<open>expected_seq = 0\<close> and an empty buffer, and the chunks \<open>0..N\<close> arrive once each, in any
  order, the conversion of each succeeding. Then \<open>expected_seq\<close> is \<open>N + 1\<close>, the buffer is
  empty, and the transcript, as the whole state, is the one that the arrival order
  \<open>0, 1, ..., N\<close> produces. The last section bounds the depth as the interpreter does.\<close>

theorem arrival_order_irrelevant:
  assumes "sessions w sid = Some s" and "expected_seq s = 0" and "buffered_chunks s = []"
    and "\<forall>j\<le>N. ffmpeg E sid (int j) (cp j) \<noteq> None"
    and "distinct order" and "set order = {0..N}"
  shows "get_expected_seq (deliver E w sid cp order) sid = int N + 1
       \<and> buffered_of (deliver E w sid cp order) sid = []
       \<and> get_transcript (deliver E w sid cp order) sid
         = get_transcript (deliver E w sid cp [0..<Suc N]) sid
       \<and> deliver E w sid cp order = deliver E w sid cp [0..<Suc N]"
proof -
  let ?W = "foldl (consume E sid cp) w [0..<Suc N]"
  have a: "deliver E w sid cp order = with_buffer ?W sid []"
    using assms by (rule deliver_all)
  have "distinct [0..<Suc N]" and "set [0..<Suc N] = {0..N}" by auto
  with assms(1-4) have b: "deliver E w sid cp [0..<Suc N] = with_buffer ?W sid []"
    by (rule deliver_all)
  have "\<forall>j. 0 \<le> j \<and> j < Suc N \<longrightarrow> ffmpeg E sid (int j) (cp j) \<noteq> None"
    using assms(4) by simp
  from consume_run [OF this, of w] assms(1,2)
  have W: "get_expected_seq ?W sid = int (Suc N)" "sessions ?W sid \<noteq> None"
    by (simp_all add: get_expected_seq_def)
  show ?thesis
    using W by (simp add: a b buffered_of_with_buffer del: upt_Suc)
qed

text \<open>Chunks 2, 0, 1 of session \<open>S1\<close>.\<close>

theorem arrival_order_irrelevant_witness:
  "sessions world1 ''S1'' = Some (session_with 0 1)
   \<and> distinct [2, 0, 1 :: nat]
   \<and> get_expected_seq (deliver env0 world1 ''S1'' spoken [2, 0, 1]) ''S1'' = 3
   \<and> buffered_of (deliver env0 world1 ''S1'' spoken [2, 0, 1]) ''S1'' = []
   \<and> get_transcript (deliver env0 world1 ''S1'' spoken [2, 0, 1]) ''S1'' = '' zero one two''
   \<and> get_transcript (deliver env0 world1 ''S1'' spoken [0, 1, 2]) ''S1'' = '' zero one two''"
proof -
  have s: "sessions world1 ''S1'' = Some (session_with 0 1)"
    by (simp add: eval_defs session_with_def)
  have e: "expected_seq (session_with 0 1) = 0" and b: "buffered_chunks (session_with 0 1) = []"
    by (simp_all add: session_with_def)
  have g: "\<forall>j\<le>2. ffmpeg env0 ''S1'' (int j) (spoken j) \<noteq> None"
    by (simp add: env0_def)
  have d: "distinct [2, 0, 1 :: nat]" by simp
  have a: "set [2, 0, 1 :: nat] = {0..2}" by auto
  have u: "[0..<Suc 2] = [0, 1, 2 :: nat]" by (simp add: upt_rec)
  have t: "get_transcript (deliver env0 world1 ''S1'' spoken [0, 1, 2]) ''S1'' = '' zero one two''"
    by (simp add: deliver_def spoken_def eval_defs)
  note r = arrival_order_irrelevant [OF s e b g d a, unfolded u]
  from r have "get_expected_seq (deliver env0 world1 ''S1'' spoken [2, 0, 1]) ''S1'' = int 2 + 1"
    by (rule conjunct1)
  moreover from r have "buffered_of (deliver env0 world1 ''S1'' spoken [2, 0, 1]) ''S1'' = []"
    by (elim conjE)
  moreover from r have "get_transcript (deliver env0 world1 ''S1'' spoken [2, 0, 1]) ''S1''
      = get_transcript (deliver env0 world1 ''S1'' spoken [0, 1, 2]) ''S1''"
    by (elim conjE)
  ultimately show ?thesis
    using s d t by simp
qed

section \<open>The expected chunk and a failed conversion\<close>

text \<open>For an existing session \<open>expected_seq\<close> never decreases, neither in \<open>process_chunk\<close>
  nor in the loop over the buffered chunks.\<close>

lemma expected_seq_monotone:
  assumes "sessions w sid \<noteq> None" and "c \<le> get_expected_seq w sid"
  shows "sessions (process_chunk E w sid seq p) sid \<noteq> None
       \<and> c \<le> get_expected_seq (process_chunk E w sid seq p) sid"
    and "sessions (process_buffered_chunks E w sid) sid \<noteq> None
       \<and> c \<le> get_expected_seq (process_buffered_chunks E w sid) sid"
proof -
  let ?I = "\<lambda>v. sessions v sid \<noteq> None \<and> c \<le> get_expected_seq v sid"
  have buf: "?I (buffer_future_chunk v sid k q)" if "?I v" for v :: "'a world" and k q
    using that by (auto simp: buffer_future_chunk_def get_expected_seq_def)
  have st: "?I (increment_expected_seq (run_stages E v sid f) sid)" if "?I v"
    for v :: "'a world" and f
  proof -
    from that have ex: "sessions (run_stages E v sid f) sid \<noteq> None"
      by (simp add: session_exists_run_stages)
    then have "get_expected_seq (increment_expected_seq (run_stages E v sid f) sid) sid
        = get_expected_seq v sid + 1"
      by (auto simp: get_expected_seq_increment run_stages_sequencing)
    moreover from ex have "sessions (increment_expected_seq (run_stages E v sid f) sid) sid \<noteq> None"
      by (auto simp: increment_expected_seq_def)
    ultimately show ?thesis using that by simp
  qed
  have rm: "?I (remove_buffered_chunk v sid k)" if "?I v" for v :: "'a world" and k
    using that by (auto simp: remove_buffered_chunk_def get_expected_seq_def)
  from assms have I: "?I w" by simp
  show "sessions (process_chunk E w sid seq p) sid \<noteq> None
       \<and> c \<le> get_expected_seq (process_chunk E w sid seq p) sid"
    by (rule process_chunk_preserves(1) [where I = ?I, OF buf st rm I])
  show "sessions (process_buffered_chunks E w sid) sid \<noteq> None
       \<and> c \<le> get_expected_seq (process_buffered_chunks E w sid) sid"
    by (rule process_chunk_preserves(2) [where I = ?I, OF buf st rm I])
qed

text \<open>C2: what the code does with the expected chunk of an existing session. When the
  conversion fails, \<open>process_chunk\<close> returns at once: the state is unchanged and
  \<open>expected_seq\<close> is still the number of the failed chunk, so it has not advanced. When
  the conversion succeeds, \<open>expected_seq\<close> has advanced past the chunk, whatever the
  recognizer and the summarizer return.\<close>

theorem process_chunk_transcode_failure:
  assumes "sessions w sid = Some s" and "seq = expected_seq s"
  shows "(ffmpeg E sid seq p = None \<longrightarrow>
            process_chunk E w sid seq p = w
            \<and> get_expected_seq (process_chunk E w sid seq p) sid = seq)
       \<and> (ffmpeg E sid seq p \<noteq> None \<longrightarrow>
            seq + 1 \<le> get_expected_seq (process_chunk E w sid seq p) sid)"
proof (cases "ffmpeg E sid seq p")
  case None
  with assms show ?thesis
    by (simp add: process_chunk_convert_fails get_expected_seq_def convert_to_wav_def)
next
  case (Some f)
  let ?v = "increment_expected_seq (run_stages E w sid f) sid"
  have ex: "sessions (run_stages E w sid f) sid \<noteq> None"
    using assms(1) by (simp add: session_exists_run_stages)
  then have "get_expected_seq ?v sid = get_expected_seq w sid + 1"
    by (auto simp: get_expected_seq_increment run_stages_sequencing)
  moreover from ex have "sessions ?v sid \<noteq> None"
    by (auto simp: increment_expected_seq_def)
  ultimately have v: "sessions ?v sid \<noteq> None" "seq + 1 \<le> get_expected_seq ?v sid"
    using assms by (simp_all add: get_expected_seq_def)
  have "process_chunk E w sid seq p = process_buffered_chunks E ?v sid"
    using assms Some by (simp add: process_chunk_expected get_expected_seq_def convert_to_wav_def)
  with expected_seq_monotone(2) [OF v, of E] Some show ?thesis by simp
qed

text \<open>With \<open>env_bad\<close> the conversion of chunk 0 fails: \<open>expected_seq\<close> stays 0, and the
  chunks 1 and 2 that follow are buffered and never processed. With \<open>env0\<close> the same
  chunk advances \<open>expected_seq\<close> to 1.\<close>

theorem process_chunk_transcode_failure_witness:
  "sessions world1 ''S1'' = Some (session_with 0 1)
   \<and> ffmpeg env_bad ''S1'' 0 (chunk ''zero'') = None
   \<and> get_expected_seq (process_chunk env_bad world1 ''S1'' 0 (chunk ''zero'')) ''S1'' = 0
   \<and> sessions
        (process_chunk env_bad
           (process_chunk env_bad (process_chunk env_bad world1 ''S1'' 0 (chunk ''zero''))
              ''S1'' 1 (chunk ''one''))
           ''S1'' 2 (chunk ''two''))
        ''S1''
     = Some \<lparr>sess_id = ''S1'', created_at = 0, status = Active, chunks_received = 0,
             transcript = [], summary = [], expected_seq = 0,
             buffered_chunks = [(1, ''one''), (2, ''two'')], last_summary_time = 1,
             word_count = 0, ended_at = None\<rparr>
   \<and> ffmpeg env0 ''S1'' 0 (chunk ''zero'') \<noteq> None
   \<and> get_expected_seq (process_chunk env0 world1 ''S1'' 0 (chunk ''zero'')) ''S1'' = 1"
  using process_chunk_transcode_failure [of world1 "''S1''" "session_with 0 1" 0 env_bad
      "chunk ''zero''"]
    process_chunk_transcode_failure [of world1 "''S1''" "session_with 0 1" 0 env0
      "chunk ''zero''"]
  by (simp add: eval_defs session_with_def)

section \<open>The recursion limit of the interpreter\<close>

text \<open>
  The calls of lines 80 and 137 of workers.py nest: \<open>process_chunk\<close> awaits
  \<open>_process_buffered_chunks\<close>, which awaits \<open>process_chunk\<close> for the buffered chunk, which
  awaits \<open>_process_buffered_chunks\<close> again before it returns. An awaited coroutine runs on the
  stack of the task that awaits it, so every chunk taken from the buffer is processed two
  frames deeper than the chunk before it. CPython raises \<open>RecursionError\<close> when a call would
  make the stack deeper than \<open>sys.getrecursionlimit()\<close>, 1000 unless it is changed, and the
  repository never changes it. \<open>RecursionError\<close> is an \<open>Exception\<close>, and the two handlers
  \<open>except Exception\<close> of lines 82 and 120 catch it like any other.

  The record \<open>interpreter\<close> holds the limit and \<open>conversion_frames\<close>, the depth of the
  deepest call below the frame of a \<open>process_chunk\<close> that processes the expected chunk.
  These calls are taken to be the ones \<open>_convert_to_wav\<close> makes to start the subprocess
  (\<open>asyncio.create_subprocess_exec\<close>, line 106). \<open>convert_to_wav_at\<close> is \<open>_convert_to_wav\<close>
  called from a \<open>process_chunk\<close> whose frame is at depth \<open>depth\<close>: when the stack has no room,
  the error is caught at line 120 and the result is \<open>None\<close>, whatever ffmpeg would do with
  the chunk. \<open>process_chunk\<close> then returns at line 56. An error raised in that
  \<open>process_chunk\<close> before the conversion (lines 36-50) is caught at line 82 and leaves the
  same state.
\<close>

record interpreter =
  recursion_limit :: nat
  conversion_frames :: nat

definition convert_to_wav_at ::
  "interpreter \<Rightarrow> 'r env \<Rightarrow> nat \<Rightarrow> string \<Rightarrow> int \<Rightarrow> path \<Rightarrow> wav option" where
  "convert_to_wav_at I E depth sid seq input_path =
     (if depth + conversion_frames I \<le> recursion_limit I then ffmpeg E sid seq input_path
      else None)"


text \<open>\<open>process_chunk\<close> and \<open>_process_buffered_chunks\<close> with the depth of the frame as a
  parameter: the loop runs one frame below the \<open>process_chunk\<close> that calls it (line 80) and
  calls \<open>process_chunk\<close> one frame below itself (line 137). \<open>run_stages\<close> stands for lines
  59-74, as in \<open>process_chunk_expected\<close>.\<close>

function process_chunk_at ::
    "interpreter \<Rightarrow> 'r env \<Rightarrow> nat \<Rightarrow> 'r world \<Rightarrow> string \<Rightarrow> int \<Rightarrow> path \<Rightarrow> 'r world"
  and process_buffered_chunks_at ::
    "interpreter \<Rightarrow> 'r env \<Rightarrow> nat \<Rightarrow> 'r world \<Rightarrow> string \<Rightarrow> 'r world" where
  "process_chunk_at I E depth w sid seq chunk_path =
     (let expected = get_expected_seq w sid in
      if seq < expected then w
      else if seq > expected then buffer_future_chunk w sid seq chunk_path
      else (case convert_to_wav_at I E depth sid seq chunk_path of
              None \<Rightarrow> w
            | Some wav_file \<Rightarrow>
                process_buffered_chunks_at I E (depth + 1)
                  (increment_expected_seq (run_stages E w sid wav_file) sid) sid))"
| "process_buffered_chunks_at I E depth w sid =
     (let expected = get_expected_seq w sid in
      case get_buffered_chunk w sid expected of
        None \<Rightarrow> w
      | Some buffered_chunk \<Rightarrow>
          process_buffered_chunks_at I E depth
            (process_chunk_at I E (depth + 1) (remove_buffered_chunk w sid expected) sid expected
               buffered_chunk)
            sid)"
  by pat_completeness auto

lemma buffered_length_at_dom:
  "process_chunk_at_process_buffered_chunks_at_dom (Inl (I, E, d, w, sid, seq, p)) \<Longrightarrow>
     length (buffered_of (process_chunk_at I E d w sid seq p) sid)
       \<le> length (buffered_of w sid) + (if seq > get_expected_seq w sid then 1 else 0)"
  "process_chunk_at_process_buffered_chunks_at_dom (Inr (I, E, d, w, sid)) \<Longrightarrow>
     length (buffered_of (process_buffered_chunks_at I E d w sid) sid) \<le> length (buffered_of w sid)"
proof (induction rule: process_chunk_at_process_buffered_chunks_at.pinduct)
  case (1 I E d w sid seq chunk_path)
  note ps = process_chunk_at.psimps [OF "1.hyps"]
  show ?case
  proof (cases "seq = get_expected_seq w sid")
    case False
    then show ?thesis
      using length_buffered_buffer [of w sid seq chunk_path]
      by (subst ps) (auto simp: Let_def)
  next
    case True
    show ?thesis
    proof (cases "convert_to_wav_at I E d sid seq chunk_path")
      case None
      with True show ?thesis by (subst ps) simp
    next
      case (Some f)
      from True Some "1.IH" [OF refl _ _ Some] show ?thesis
        by (subst ps) (simp add: run_stages_sequencing)
    qed
  qed
next
  case (2 I E d w sid)
  note ps = process_buffered_chunks_at.psimps [OF "2.hyps"]
  show ?case
  proof (cases "get_buffered_chunk w sid (get_expected_seq w sid)")
    case None
    then show ?thesis by (subst ps) simp
  next
    case (Some p)
    let ?w1 = "remove_buffered_chunk w sid (get_expected_seq w sid)"
    have "length (buffered_of (process_buffered_chunks_at I E d w sid) sid)
            \<le> length (buffered_of (process_chunk_at I E (d + 1) ?w1 sid (get_expected_seq w sid) p)
                  sid)"
      using "2.IH"(2) [OF refl Some] Some
      by (subst ps) (simp add: Let_def)
    also have "\<dots> \<le> length (buffered_of ?w1 sid)"
      using "2.IH"(1) [OF refl Some] by simp
    also have "\<dots> \<le> length (buffered_of w sid)"
      by (rule length_buffered_remove)
    finally show ?thesis .
  qed
qed

termination process_chunk_at
proof (relation "measure (\<lambda>x. case x of
          Inl (I, E, d, w, sid, seq, p) \<Rightarrow> 2 * length (buffered_of w sid) + 1
        | Inr (I, E, d, w, sid) \<Rightarrow> 2 * length (buffered_of w sid))", goal_cases)
  case 1
  show ?case by simp
next
  case (2 I E d w sid seq chunk_path x x2)
  then show ?case by (simp add: run_stages_sequencing)
next
  case (3 I E d w sid x x2)
  then show ?case
    using length_buffered_remove_less [of w sid x x2] by simp
next
  case (4 I E d w sid x x2)
  then show ?case
    using length_buffered_remove_less [of w sid x x2]
      buffered_length_at_dom(1) [of I E "d + 1" "remove_buffered_chunk w sid x" sid x x2]
    by simp
qed

declare process_chunk_at.simps [simp del] process_buffered_chunks_at.simps [simp del]

lemma process_chunk_at_stale:
  "seq < get_expected_seq w sid \<Longrightarrow> process_chunk_at I E d w sid seq p = w"
  by (subst process_chunk_at.simps) simp

lemma process_chunk_at_future:
  "get_expected_seq w sid < seq \<Longrightarrow>
   process_chunk_at I E d w sid seq p = buffer_future_chunk w sid seq p"
  by (subst process_chunk_at.simps) simp

lemma process_chunk_at_convert_fails:
  "seq = get_expected_seq w sid \<Longrightarrow> convert_to_wav_at I E d sid seq p = None \<Longrightarrow>
   process_chunk_at I E d w sid seq p = w"
  by (subst process_chunk_at.simps) simp

lemma process_chunk_at_expected:
  "seq = get_expected_seq w sid \<Longrightarrow> convert_to_wav_at I E d sid seq p = Some f \<Longrightarrow>
   process_chunk_at I E d w sid seq p =
     process_buffered_chunks_at I E (d + 1)
       (increment_expected_seq (run_stages E w sid f) sid) sid"
  by (subst process_chunk_at.simps) simp

lemma process_buffered_chunks_at_done:
  "get_buffered_chunk w sid (get_expected_seq w sid) = None \<Longrightarrow>
   process_buffered_chunks_at I E d w sid = w"
  by (subst process_buffered_chunks_at.simps) simp

lemma process_buffered_chunks_at_next:
  "get_buffered_chunk w sid (get_expected_seq w sid) = Some p \<Longrightarrow>
   process_buffered_chunks_at I E d w sid =
     process_buffered_chunks_at I E d
       (process_chunk_at I E (d + 1) (remove_buffered_chunk w sid (get_expected_seq w sid)) sid
          (get_expected_seq w sid) p) sid"
  by (subst process_buffered_chunks_at.simps) (simp add: Let_def)

text \<open>The arrivals \<open>order\<close> of a session, each handled by a task whose \<open>process_chunk\<close>
  frame is at depth \<open>depth\<close>.\<close>

definition deliver_at ::
  "interpreter \<Rightarrow> 'r env \<Rightarrow> nat \<Rightarrow> 'r world \<Rightarrow> string \<Rightarrow> (nat \<Rightarrow> path) \<Rightarrow> nat list \<Rightarrow> 'r world" where
  "deliver_at I E depth w sid cp order =
     foldl (\<lambda>v k. process_chunk_at I E depth v sid (int k) (cp k)) w order"


lemma deliver_at_snoc:
  "deliver_at I E d w sid cp (order @ [k])
     = process_chunk_at I E d (deliver_at I E d w sid cp order) sid (int k) (cp k)"
  by (simp add: deliver_at_def)

lemma deliver_at_buffers:
  assumes "sessions w sid = Some s" and "expected_seq s = 0" and "buffered_chunks s = []"
  shows "\<exists>B. deliver_at I E d w sid cp [1..<Suc n] = with_buffer w sid B
           \<and> fst ` set B = int ` {1..n}
           \<and> (\<forall>(k, s) \<in> set B. \<exists>j\<le>n. k = int j \<and> s = str_of (cp j))"
proof (induction n)
  case 0
  have "deliver_at I E d w sid cp [1..<Suc 0] = with_buffer w sid []"
    using assms by (simp add: deliver_at_def with_buffer_same)
  then show ?case by (intro exI [of _ "[]"]) simp
next
  case (Suc n)
  then obtain B where
    st: "deliver_at I E d w sid cp [1..<Suc n] = with_buffer w sid B"
    and keys: "fst ` set B = int ` {1..n}"
    and ent: "\<forall>(k, s) \<in> set B. \<exists>j\<le>n. k = int j \<and> s = str_of (cp j)"
    by (elim exE conjE)
  let ?B' = "AList.update (int (Suc n)) (str_of (cp (Suc n))) B"
  have e: "get_expected_seq w sid = 0"
    using assms by (simp add: get_expected_seq_def)
  have up: "[1..<Suc (Suc n)] = [1..<Suc n] @ [Suc n]" by simp
  have "deliver_at I E d w sid cp [1..<Suc (Suc n)] = with_buffer w sid ?B'"
    unfolding up deliver_at_snoc st
    using e by (simp add: process_chunk_at_future buffer_with_buffer)
  moreover have "fst ` set ?B' = int ` {1..Suc n}"
  proof -
    have "{1..Suc n} = insert (Suc n) {1..n}" by auto
    then show ?thesis by (simp only: dom_update keys image_insert) simp
  qed
  moreover have "\<forall>(k, s) \<in> set ?B'. \<exists>j\<le>Suc n. k = int j \<and> s = str_of (cp j)"
  proof -
    have "\<exists>j\<le>Suc n. fst x = int j \<and> snd x = str_of (cp j)" if "x \<in> set ?B'" for x
    proof -
      from that set_update_subset [of "int (Suc n)" "str_of (cp (Suc n))" B]
      consider "x = (int (Suc n), str_of (cp (Suc n)))" | "x \<in> set B" by auto
      then show ?thesis
      proof cases
        case 1
        then show ?thesis by auto
      next
        case 2
        with ent obtain j where "j \<le> n" "fst x = int j" "snd x = str_of (cp j)" by force
        then show ?thesis by (intro exI [of _ j]) simp
      qed
    qed
    then show ?thesis by force
  qed
  ultimately show ?case by (intro exI [of _ ?B'] conjI)
qed

subsection \<open>Within the limit the depth plays no role\<close>

text \<open>A call that finds at most \<open>n\<close> chunks in the buffer nests at most \<open>n\<close> further calls
  of \<open>process_chunk\<close>. When the stack has room for them, the functions with a depth are the
  functions \<open>process_chunk\<close> and \<open>process_buffered_chunks\<close> of the earlier sections.\<close>

lemma buffered_length:
  shows "length (buffered_of (process_chunk E w sid seq p) sid)
           \<le> length (buffered_of w sid) + (if seq > get_expected_seq w sid then 1 else 0)"
    and "length (buffered_of (process_buffered_chunks E w sid) sid) \<le> length (buffered_of w sid)"
proof (induction E w sid seq p and E w sid rule: process_chunk_process_buffered_chunks.induct)
  case (1 E w sid seq chunk_path)
  consider "seq < get_expected_seq w sid" | "get_expected_seq w sid < seq"
    | "seq = get_expected_seq w sid" by linarith
  then show ?case
  proof cases
    case 1
    then show ?thesis by (simp add: process_chunk_stale)
  next
    case 2
    then show ?thesis
      using length_buffered_buffer [of w sid seq chunk_path] by (simp add: process_chunk_future)
  next
    case 3
    show ?thesis
    proof (cases "convert_to_wav E sid seq chunk_path")
      case None
      with 3 show ?thesis by (simp add: process_chunk_convert_fails)
    next
      case (Some f)
      obtain tx y where t: "transcribe_chunk E w sid f = (tx, y)"
        by (cases "transcribe_chunk E w sid f")
      have "length (buffered_of (process_buffered_chunks E
                (increment_expected_seq (run_stages E w sid f) sid) sid) sid)
              \<le> length (buffered_of (increment_expected_seq (run_stages E w sid f) sid) sid)"
        using "1.IH" [OF refl _ _ _ _ refl, of f tx y] 3 Some t
        by (simp add: run_stages_def)
      with 3 Some show ?thesis
        by (simp add: process_chunk_expected run_stages_sequencing)
    qed
  qed
next
  case (2 E w sid)
  show ?case
  proof (cases "get_buffered_chunk w sid (get_expected_seq w sid)")
    case None
    then show ?thesis by (simp add: process_buffered_chunks_done)
  next
    case (Some p)
    let ?w1 = "remove_buffered_chunk w sid (get_expected_seq w sid)"
    let ?w2 = "process_chunk E ?w1 sid (get_expected_seq w sid) p"
    have "length (buffered_of (process_buffered_chunks E w sid) sid)
            \<le> length (buffered_of ?w2 sid)"
      using "2.IH"(2) [OF refl Some] Some by (simp add: process_buffered_chunks_next)
    also have "\<dots> \<le> length (buffered_of ?w1 sid)"
      using "2.IH"(1) [OF refl Some] by simp
    also have "\<dots> \<le> length (buffered_of w sid)"
      by (rule length_buffered_remove)
    finally show ?thesis .
  qed
qed

lemma within_limit:
  shows "d + 2 * length (buffered_of w sid) + conversion_frames I \<le> recursion_limit I \<Longrightarrow>
         process_chunk_at I E d w sid seq p = process_chunk E w sid seq p"
    and "d + 2 * length (buffered_of w sid) + conversion_frames I \<le> Suc (recursion_limit I) \<Longrightarrow>
         process_buffered_chunks_at I E d w sid = process_buffered_chunks E w sid"
proof (induction E w sid seq p and E w sid arbitrary: d and d
    rule: process_chunk_process_buffered_chunks.induct)
  case (1 E w sid seq chunk_path)
  consider "seq < get_expected_seq w sid" | "get_expected_seq w sid < seq"
    | "seq = get_expected_seq w sid" by linarith
  then show ?case
  proof cases
    case 1
    then show ?thesis by (simp add: process_chunk_stale process_chunk_at_stale)
  next
    case 2
    then show ?thesis by (simp add: process_chunk_future process_chunk_at_future)
  next
    case 3
    have conv: "convert_to_wav_at I E d sid seq chunk_path = convert_to_wav E sid seq chunk_path"
      using "1.prems" by (simp add: convert_to_wav_at_def convert_to_wav_def)
    show ?thesis
    proof (cases "convert_to_wav E sid seq chunk_path")
      case None
      with 3 conv show ?thesis
        by (simp add: process_chunk_convert_fails process_chunk_at_convert_fails)
    next
      case (Some f)
      obtain tx y where t: "transcribe_chunk E w sid f = (tx, y)"
        by (cases "transcribe_chunk E w sid f")
      let ?v = "increment_expected_seq (run_stages E w sid f) sid"
      have "d + 1 + 2 * length (buffered_of ?v sid) + conversion_frames I
          \<le> Suc (recursion_limit I)"
        using "1.prems" by (simp add: run_stages_sequencing)
      then have "process_buffered_chunks_at I E (d + 1) ?v sid = process_buffered_chunks E ?v sid"
        using "1.IH" [OF refl _ _ _ _ refl, of f tx y "d + 1"] 3 Some t
        by (simp add: run_stages_def)
      with 3 Some conv show ?thesis
        by (simp add: process_chunk_expected process_chunk_at_expected)
    qed
  qed
next
  case (2 E w sid)
  show ?case
  proof (cases "get_buffered_chunk w sid (get_expected_seq w sid)")
    case None
    then show ?thesis
      by (simp add: process_buffered_chunks_done process_buffered_chunks_at_done)
  next
    case (Some p)
    let ?w1 = "remove_buffered_chunk w sid (get_expected_seq w sid)"
    let ?w2 = "process_chunk E ?w1 sid (get_expected_seq w sid) p"
    have less: "length (buffered_of ?w1 sid) < length (buffered_of w sid)"
      using Some by (rule length_buffered_remove_less)
    then have "d + 1 + 2 * length (buffered_of ?w1 sid) + conversion_frames I \<le> recursion_limit I"
      using "2.prems" by simp
    from "2.IH"(1) [OF refl Some this]
    have a: "process_chunk_at I E (d + 1) ?w1 sid (get_expected_seq w sid) p = ?w2" .
    have "length (buffered_of ?w2 sid) \<le> length (buffered_of ?w1 sid)"
      using buffered_length(1) [of E ?w1 sid "get_expected_seq w sid" p] by simp
    with less have "d + 2 * length (buffered_of ?w2 sid) + conversion_frames I
        \<le> Suc (recursion_limit I)"
      using "2.prems" by simp
    from "2.IH"(2) [OF refl Some this]
    have b: "process_buffered_chunks_at I E d ?w2 sid = process_buffered_chunks E ?w2 sid" .
    from Some a b show ?thesis
      by (simp add: process_buffered_chunks_next process_buffered_chunks_at_next)
  qed
qed

lemma deliver_length:
  "length (buffered_of (deliver E w sid cp order) sid)
     \<le> length (buffered_of w sid) + length order"
proof (induction order rule: rev_induct)
  case Nil
  show ?case by (simp add: deliver_def)
next
  case (snoc k order)
  have "length (buffered_of (deliver E w sid cp (order @ [k])) sid)
      \<le> length (buffered_of (deliver E w sid cp order) sid) + 1"
    using buffered_length(1) [of E "deliver E w sid cp order" sid "int k" "cp k"]
    by (simp add: deliver_snoc split: if_splits)
  with snoc show ?case by simp
qed

lemma deliver_within_limit:
  assumes "buffered_of w sid = []"
    and "d + 2 * N + conversion_frames I \<le> recursion_limit I"
  shows "length order \<le> Suc N \<Longrightarrow> deliver_at I E d w sid cp order = deliver E w sid cp order"
proof (induction order rule: rev_induct)
  case Nil
  show ?case by (simp add: deliver_def deliver_at_def)
next
  case (snoc k order)
  then have eq: "deliver_at I E d w sid cp order = deliver E w sid cp order"
    and len: "length order \<le> N" by simp_all
  have "length (buffered_of (deliver E w sid cp order) sid) \<le> N"
    using deliver_length [of E w sid cp order] assms(1) len by simp
  then have "d + 2 * length (buffered_of (deliver E w sid cp order) sid) + conversion_frames I
      \<le> recursion_limit I"
    using assms(2) by simp
  then show ?case
    by (simp add: deliver_at_snoc deliver_snoc eq within_limit(1))
qed

text \<open>So for chunks \<open>0..N\<close> with \<open>N\<close> small enough for the limit, the arrival order does not
  matter.\<close>

theorem arrival_order_within_limit:
  assumes "sessions w sid = Some s" and "expected_seq s = 0" and "buffered_chunks s = []"
    and "\<forall>j\<le>N. ffmpeg E sid (int j) (cp j) \<noteq> None"
    and "distinct order" and "set order = {0..N}"
    and "d + 2 * N + conversion_frames I \<le> recursion_limit I"
  shows "get_expected_seq (deliver_at I E d w sid cp order) sid = int N + 1
       \<and> buffered_of (deliver_at I E d w sid cp order) sid = []
       \<and> get_transcript (deliver_at I E d w sid cp order) sid
         = get_transcript (deliver_at I E d w sid cp [0..<Suc N]) sid"
proof -
  have b: "buffered_of w sid = []"
    using assms(1,3) by (simp add: buffered_of_def)
  have "length order = card (set order)"
    using assms(5) by (simp add: distinct_card)
  then have "length order \<le> Suc N" using assms(6) by simp
  then have a: "deliver_at I E d w sid cp order = deliver E w sid cp order"
    by (rule deliver_within_limit [OF b assms(7)])
  have "length [0..<Suc N] \<le> Suc N" by simp
  then have c: "deliver_at I E d w sid cp [0..<Suc N] = deliver E w sid cp [0..<Suc N]"
    by (rule deliver_within_limit [OF b assms(7)])
  note r = arrival_order_irrelevant [OF assms(1-6)]
  from r have "get_expected_seq (deliver E w sid cp order) sid = int N + 1"
    by (rule conjunct1)
  moreover from r have "buffered_of (deliver E w sid cp order) sid = []"
    by (elim conjE)
  moreover from r have "get_transcript (deliver E w sid cp order) sid
      = get_transcript (deliver E w sid cp [0..<Suc N]) sid"
    by (elim conjE)
  ultimately show ?thesis
    unfolding a c by (intro conjI)
qed

subsection \<open>Beyond the limit the sequence stalls\<close>

text \<open>The loop started with \<open>expected_seq = e\<close> and the chunks \<open>e..N\<close> in the buffer, \<open>L\<close>
  being the first level of nesting at which the conversion has no room: the chunks \<open>e..L-1\<close>
  are processed, chunk \<open>L\<close> is taken from the buffer and dropped, and the chunks after \<open>L\<close>
  stay in the buffer.\<close>

lemma drain_at_stalls:
  assumes good: "\<forall>j\<le>N. ffmpeg E sid (int j) (cp j) \<noteq> None"
    and lim: "\<forall>k. (k < L) = (d0 + 2 * k + conversion_frames I \<le> recursion_limit I)"
    and LN: "L \<le> N"
  shows "e \<le> L \<Longrightarrow> 1 \<le> e \<Longrightarrow> sessions W sid \<noteq> None \<Longrightarrow> get_expected_seq W sid = int e \<Longrightarrow>
         fst ` set B = int ` {e..N} \<Longrightarrow>
         (\<forall>(k, s) \<in> set B. \<exists>j\<le>N. k = int j \<and> s = str_of (cp j)) \<Longrightarrow>
         \<exists>B'. process_buffered_chunks_at I E (d0 + 2 * e - 1) (with_buffer W sid B) sid
                 = with_buffer (foldl (consume E sid cp) W [e..<L]) sid B'
              \<and> set B' = {x \<in> set B. int L < fst x}"
proof (induction e arbitrary: W B rule: inc_induct)
  case base
  note ex = base.prems(2) and e = base.prems(3) and keys = base.prems(4) and ent = base.prems(5)
  let ?d = "d0 + 2 * L - 1"
  let ?w = "with_buffer W sid B"
  let ?B1 = "AList.delete (int L) B"
  have exp: "get_expected_seq ?w sid = int L" using e by simp
  from keys LN have "int L \<in> fst ` set B" by simp
  then obtain s0 where s0: "map_of B (int L) = Some s0"
    by (metis weak_map_of_SomeI imageE prod.collapse)
  then have "(int L, s0) \<in> set B" by (rule map_of_SomeD)
  with ent have s0_eq: "s0 = str_of (cp L)" by auto
  have got: "get_buffered_chunk ?w sid (get_expected_seq ?w sid) = Some (cp L)"
    using ex s0 s0_eq path_of_str [of "cp L"]
    by (simp add: get_buffered_with_buffer exp del: get_expected_seq_with_buffer)
  have depth: "?d + 1 = d0 + 2 * L" using base.prems(1) by simp
  have step1: "process_buffered_chunks_at I E ?d ?w sid
      = process_buffered_chunks_at I E ?d
          (process_chunk_at I E (d0 + 2 * L) (with_buffer W sid ?B1) sid (int L) (cp L)) sid"
    using process_buffered_chunks_at_next [OF got, of I E ?d] unfolding depth
    by (simp add: exp remove_with_buffer e)
  have "\<not> d0 + 2 * L + conversion_frames I \<le> recursion_limit I"
    using lim [rule_format, of L] by simp
  then have "convert_to_wav_at I E (d0 + 2 * L) sid (int L) (cp L) = None"
    by (simp add: convert_to_wav_at_def)
  then have step2: "process_chunk_at I E (d0 + 2 * L) (with_buffer W sid ?B1) sid (int L) (cp L)
      = with_buffer W sid ?B1"
    using e by (intro process_chunk_at_convert_fails) simp_all
  have "int L \<notin> fst ` set ?B1" by (rule delete_notin_dom)
  then have "map_of ?B1 (int L) = None" by (simp add: map_of_eq_None_iff)
  then have "get_buffered_chunk (with_buffer W sid ?B1) sid
      (get_expected_seq (with_buffer W sid ?B1) sid) = None"
    using ex e by (simp add: get_buffered_with_buffer)
  then have step3: "process_buffered_chunks_at I E ?d (with_buffer W sid ?B1) sid
      = with_buffer W sid ?B1"
    by (rule process_buffered_chunks_at_done)
  have rest: "set ?B1 = {x \<in> set B. int L < fst x}"
  proof -
    have "int L \<le> fst x" if "x \<in> set B" for x
    proof -
      from that have "fst x \<in> int ` {L..N}" using keys by force
      then show ?thesis by auto
    qed
    then show ?thesis by (force simp: set_delete)
  qed
  from step1 step2 step3
  have "process_buffered_chunks_at I E ?d ?w sid
      = with_buffer (foldl (consume E sid cp) W [L..<L]) sid ?B1" by simp
  with rest show ?case by (intro exI [of _ ?B1] conjI)
next
  case (step e)
  note ex = step.prems(2) and e = step.prems(3) and keys = step.prems(4) and ent = step.prems(5)
  from step.hyps LN have eN: "e \<le> N" by simp
  let ?d = "d0 + 2 * e - 1"
  let ?w = "with_buffer W sid B"
  let ?B1 = "AList.delete (int e) B"
  let ?W1 = "consume E sid cp W e"
  have exp: "get_expected_seq ?w sid = int e" using e by simp
  from keys eN have "int e \<in> fst ` set B" by simp
  then obtain s0 where s0: "map_of B (int e) = Some s0"
    by (metis weak_map_of_SomeI imageE prod.collapse)
  then have "(int e, s0) \<in> set B" by (rule map_of_SomeD)
  with ent have s0_eq: "s0 = str_of (cp e)" by auto
  from eN good obtain f where f: "ffmpeg E sid (int e) (cp e) = Some f" by auto
  have got: "get_buffered_chunk ?w sid (get_expected_seq ?w sid) = Some (cp e)"
    using ex s0 s0_eq path_of_str [of "cp e"]
    by (simp add: get_buffered_with_buffer exp del: get_expected_seq_with_buffer)
  have depth: "?d + 1 = d0 + 2 * e" using step.prems(1) by simp
  have step1: "process_buffered_chunks_at I E ?d ?w sid
      = process_buffered_chunks_at I E ?d
          (process_chunk_at I E (d0 + 2 * e) (with_buffer W sid ?B1) sid (int e) (cp e)) sid"
    using process_buffered_chunks_at_next [OF got, of I E ?d] unfolding depth
    by (simp add: exp remove_with_buffer e)
  have "d0 + 2 * e + conversion_frames I \<le> recursion_limit I"
    using lim [rule_format, of e] step.hyps by simp
  then have conv: "convert_to_wav_at I E (d0 + 2 * e) sid (int e) (cp e) = Some f"
    using f by (simp add: convert_to_wav_at_def)
  have depth2: "d0 + 2 * e + 1 = d0 + 2 * Suc e - 1" by simp
  have "process_chunk_at I E (d0 + 2 * e) (with_buffer W sid ?B1) sid (int e) (cp e)
      = process_buffered_chunks_at I E (d0 + 2 * e + 1)
          (increment_expected_seq (run_stages E (with_buffer W sid ?B1) sid f) sid) sid"
    using conv e by (intro process_chunk_at_expected) simp_all
  then have step2: "process_chunk_at I E (d0 + 2 * e) (with_buffer W sid ?B1) sid (int e) (cp e)
      = process_buffered_chunks_at I E (d0 + 2 * Suc e - 1) (with_buffer ?W1 sid ?B1) sid"
    unfolding depth2 using f
    by (simp add: consume_def with_buffer_run_stages with_buffer_increment)
  have W1: "sessions ?W1 sid \<noteq> None" "get_expected_seq ?W1 sid = int (Suc e)"
    using consume_step [of E sid e cp W] f ex e by simp_all
  have keys1: "fst ` set ?B1 = int ` {Suc e..N}"
  proof -
    have "fst ` set ?B1 = fst ` set B - {int e}" by (auto simp: set_delete)
    also have "\<dots> = int ` {e..N} - {int e}" by (simp add: keys)
    also have "\<dots> = int ` {Suc e..N}" by auto
    finally show ?thesis .
  qed
  have ent1: "\<forall>(k, s) \<in> set ?B1. \<exists>j\<le>N. k = int j \<and> s = str_of (cp j)"
    using ent by (auto simp: set_delete)
  have "1 \<le> Suc e" by simp
  from step.IH [OF this W1 keys1 ent1]
  obtain B' where
    r: "process_buffered_chunks_at I E (d0 + 2 * Suc e - 1) (with_buffer ?W1 sid ?B1) sid
          = with_buffer (foldl (consume E sid cp) ?W1 [Suc e..<L]) sid B'"
    and rest: "set B' = {x \<in> set ?B1. int L < fst x}"
    by (elim exE conjE)
  let ?W2 = "foldl (consume E sid cp) W [e..<L]"
  have W2: "?W2 = foldl (consume E sid cp) ?W1 [Suc e..<L]"
    using step.hyps by (simp add: upt_conv_Cons)
  have good2: "\<forall>j. e \<le> j \<and> j < L \<longrightarrow> ffmpeg E sid (int j) (cp j) \<noteq> None"
    using good LN by auto
  have W2e: "get_expected_seq ?W2 sid = int L" "sessions ?W2 sid \<noteq> None"
    using consume_run [OF good2 ex e] step.hyps by simp_all
  have "int L \<notin> fst ` set B'" using rest by auto
  then have "map_of B' (int L) = None" by (simp add: map_of_eq_None_iff)
  then have "get_buffered_chunk (with_buffer ?W2 sid B') sid
      (get_expected_seq (with_buffer ?W2 sid B') sid) = None"
    using W2e by (simp add: get_buffered_with_buffer)
  then have "process_buffered_chunks_at I E ?d (with_buffer ?W2 sid B') sid
      = with_buffer ?W2 sid B'"
    by (rule process_buffered_chunks_at_done)
  with step1 step2 r W2
  have "process_buffered_chunks_at I E ?d ?w sid = with_buffer ?W2 sid B'" by simp
  moreover have "set B' = {x \<in> set B. int L < fst x}"
  proof -
    have "int e < int L" using step.hyps by simp
    then have "{x \<in> set ?B1. int L < fst x} = {x \<in> set B. int L < fst x}"
      unfolding set_delete by fastforce
    with rest show ?thesis by (simp only:)
  qed
  ultimately show ?case by (intro exI [of _ B'] conjI)
qed

text \<open>An interpreter with CPython's default limit, the conversion taken to need 22 frames,
  and a small one on which a run can be evaluated step by step.\<close>

definition cpython :: interpreter where
  "cpython = \<lparr>recursion_limit = 1000, conversion_frames = 22\<rparr>"


definition shallow :: interpreter where
  "shallow = \<lparr>recursion_limit = 10, conversion_frames = 5\<rparr>"

text \<open>C1: a session starts with \<open>expected_seq = 0\<close> and an empty buffer; the chunks \<open>1..N\<close>
  arrive, then chunk \<open>0\<close>; ffmpeg converts every one of them. \<open>L\<close> is the number of nested
  chunks the recursion limit has room for, and \<open>N\<close> is not below it. Then \<open>expected_seq\<close>
  ends at \<open>L\<close> and not at \<open>N + 1\<close>, and the chunks after \<open>L\<close> are still in the buffer: the
  statement that every arrival order of the chunks \<open>0..N\<close> ends with \<open>expected_seq = N + 1\<close>
  and an empty buffer fails for this order. Chunk \<open>L\<close> itself has left the buffer without
  being processed.\<close>

theorem deep_buffer_stalls:
  assumes "sessions w sid = Some s" and "expected_seq s = 0" and "buffered_chunks s = []"
    and good: "\<forall>j\<le>N. ffmpeg E sid (int j) (cp j) \<noteq> None"
    and lim: "\<forall>k. (k < L) = (d0 + 2 * k + conversion_frames I \<le> recursion_limit I)"
    and L1: "1 \<le> L" and LN: "L \<le> N"
  shows "get_expected_seq (deliver_at I E d0 w sid cp ([1..<Suc N] @ [0])) sid = int L
       \<and> get_expected_seq (deliver_at I E d0 w sid cp ([1..<Suc N] @ [0])) sid \<noteq> int N + 1
       \<and> fst ` set (buffered_of (deliver_at I E d0 w sid cp ([1..<Suc N] @ [0])) sid)
         = int ` {L<..N}"
proof -
  from deliver_at_buffers [OF assms(1-3), of I E d0 cp N]
  obtain B where
    st: "deliver_at I E d0 w sid cp [1..<Suc N] = with_buffer w sid B"
    and keys: "fst ` set B = int ` {1..N}"
    and ent: "\<forall>(k, s) \<in> set B. \<exists>j\<le>N. k = int j \<and> s = str_of (cp j)"
    by (elim exE conjE)
  have e: "get_expected_seq w sid = 0" and ex: "sessions w sid \<noteq> None"
    using assms(1,2) by (simp_all add: get_expected_seq_def)
  from good obtain f where f: "ffmpeg E sid (int 0) (cp 0) = Some f" by auto
  have "d0 + 2 * 0 + conversion_frames I \<le> recursion_limit I"
    using lim [rule_format, of 0] L1 by simp
  then have conv: "convert_to_wav_at I E d0 sid 0 (cp 0) = Some f"
    using f by (simp add: convert_to_wav_at_def)
  let ?W1 = "consume E sid cp w 0"
  have "process_chunk_at I E d0 (with_buffer w sid B) sid 0 (cp 0)
      = process_buffered_chunks_at I E (d0 + 1)
          (increment_expected_seq (run_stages E (with_buffer w sid B) sid f) sid) sid"
    using conv e by (intro process_chunk_at_expected) simp_all
  then have step: "deliver_at I E d0 w sid cp ([1..<Suc N] @ [0])
      = process_buffered_chunks_at I E (d0 + 2 * 1 - 1) (with_buffer ?W1 sid B) sid"
    unfolding deliver_at_snoc st using f
    by (simp add: consume_def with_buffer_run_stages with_buffer_increment)
  have W1: "sessions ?W1 sid \<noteq> None" "get_expected_seq ?W1 sid = int 1"
    using consume_step [of E sid 0 cp w] f ex e by simp_all
  from drain_at_stalls [OF good lim LN L1 order_refl W1 keys ent]
  obtain B' where
    r: "process_buffered_chunks_at I E (d0 + 2 * 1 - 1) (with_buffer ?W1 sid B) sid
          = with_buffer (foldl (consume E sid cp) ?W1 [1..<L]) sid B'"
    and rest: "set B' = {x \<in> set B. int L < fst x}"
    by (elim exE conjE)
  let ?W2 = "foldl (consume E sid cp) w [0..<L]"
  have W2: "foldl (consume E sid cp) ?W1 [1..<L] = ?W2"
    using L1 by (simp add: upt_conv_Cons)
  have good2: "\<forall>j. 0 \<le> j \<and> j < L \<longrightarrow> ffmpeg E sid (int j) (cp j) \<noteq> None"
    using good LN by auto
  have W2e: "get_expected_seq ?W2 sid = int L" "sessions ?W2 sid \<noteq> None"
    using consume_run [OF good2 ex] e by simp_all
  have res: "deliver_at I E d0 w sid cp ([1..<Suc N] @ [0]) = with_buffer ?W2 sid B'"
    unfolding step r W2 ..
  have a: "get_expected_seq (deliver_at I E d0 w sid cp ([1..<Suc N] @ [0])) sid = int L"
    unfolding res using W2e by simp
  have "fst ` set B' = fst ` set B \<inter> {k. int L < k}"
    using rest by force
  also have "\<dots> = int ` {1..N} \<inter> {k. int L < k}" by (simp only: keys)
  also have "\<dots> = int ` {L<..N}"
    using L1 by (auto simp: image_iff)
  finally have b: "fst ` set (buffered_of (deliver_at I E d0 w sid cp ([1..<Suc N] @ [0])) sid)
      = int ` {L<..N}"
    unfolding res using W2e by (simp add: buffered_of_with_buffer)
  from a b LN show ?thesis by simp
qed

text \<open>Chunks 1 to 490 and then chunk 0 of session \<open>S1\<close>, the first \<open>process_chunk\<close> at depth
  3 under the default limit: \<open>expected_seq\<close> ends at 488 with chunks 489 and 490 in the
  buffer. On the small interpreter, chunks 1, 2, 0: chunks 0 and 1 are transcribed, chunk 2
  is dropped.\<close>

theorem deep_buffer_stalls_witness:
  "sessions world1 ''S1'' = Some (session_with 0 1)
   \<and> get_expected_seq (deliver_at cpython env0 3 world1 ''S1'' spoken ([1..<Suc 490] @ [0])) ''S1''
     = 488
   \<and> fst ` set (buffered_of (deliver_at cpython env0 3 world1 ''S1'' spoken ([1..<Suc 490] @ [0]))
                  ''S1'') = int ` {488<..490}
   \<and> get_expected_seq (deliver_at shallow env0 2 world1 ''S1'' spoken [1, 2, 0]) ''S1'' = 2
   \<and> buffered_of (deliver_at shallow env0 2 world1 ''S1'' spoken [1, 2, 0]) ''S1'' = []
   \<and> get_transcript (deliver_at shallow env0 2 world1 ''S1'' spoken [1, 2, 0]) ''S1''
     = '' zero one''"
proof -
  have s: "sessions world1 ''S1'' = Some (session_with 0 1)"
    by (simp add: eval_defs session_with_def)
  have e: "expected_seq (session_with 0 1) = 0" and b: "buffered_chunks (session_with 0 1) = []"
    by (simp_all add: session_with_def)
  have g: "\<forall>j\<le>490. ffmpeg env0 ''S1'' (int j) (spoken j) \<noteq> None"
    by (simp add: env0_def)
  have l: "\<forall>k. (k < 488) = (3 + 2 * k + conversion_frames cpython \<le> recursion_limit cpython)"
    by (auto simp: cpython_def)
  have g2: "\<forall>j\<le>2. ffmpeg env0 ''S1'' (int j) (spoken j) \<noteq> None"
    by (simp add: env0_def)
  have l2: "\<forall>k. (k < 2) = (2 + 2 * k + conversion_frames shallow \<le> recursion_limit shallow)"
    by (auto simp: shallow_def)
  have u: "[1..<Suc 2] @ [0] = [1, 2, 0 :: nat]" by (simp add: upt_rec)
  have t: "get_transcript (deliver_at shallow env0 2 world1 ''S1'' spoken [1, 2, 0]) ''S1''
      = '' zero one''
    \<and> buffered_of (deliver_at shallow env0 2 world1 ''S1'' spoken [1, 2, 0]) ''S1'' = []"
    by (simp add: deliver_at_def spoken_def shallow_def convert_to_wav_at_def
        process_chunk_at_stale process_chunk_at_future process_chunk_at_expected
        process_chunk_at_convert_fails process_buffered_chunks_at_done
        process_buffered_chunks_at_next eval_defs)
  from deep_buffer_stalls [OF s e b g l] deep_buffer_stalls [OF s e b g2 l2, unfolded u] s t
  show ?thesis by simp
qed

end
